theory Spec2Isabelle
  imports Complex_Main "HOL-Library.Signed_Division"
begin

section \<open>Doubles\<close>

text \<open>
  A C \<open>double\<close> is modelled as a real number or one of the three special values of
  IEEE 754. Arithmetic on finite values is exact (no rounding, no overflow to infinity);
  arithmetic on the special values follows IEEE 754. There is one zero: the sign of zero
  is not modelled, and every divisor in the program is a positive element count.

  The binary64 arithmetic of the program rounds (\<open>1e16 + 1\<close> is \<open>1e16\<close>) and overflows
  (\<open>1e200 * 1e200\<close> is \<open>+Inf\<close>) where the model computes the exact real. A statement
  below that equates a computed statistic with a real number is therefore a statement
  about exact arithmetic, and says so; the statements about the buffer, the control flow,
  the error paths and the reporting of a computed value do not depend on it.
\<close>

datatype double = Fin real | PInf | NInf | NaN

fun isnan :: "double \<Rightarrow> bool" where
  "isnan NaN = True"
| "isnan _ = False"

fun isinf :: "double \<Rightarrow> bool" where
  "isinf PInf = True"
| "isinf NInf = True"
| "isinf _ = False"

fun isfinite :: "double \<Rightarrow> bool" where
  "isfinite (Fin _) = True"
| "isfinite _ = False"

fun dneg :: "double \<Rightarrow> double" where
  "dneg (Fin a) = Fin (- a)"
| "dneg PInf = NInf"
| "dneg NInf = PInf"
| "dneg NaN = NaN"

fun dadd :: "double \<Rightarrow> double \<Rightarrow> double" where
  "dadd (Fin a) (Fin b) = Fin (a + b)"
| "dadd NaN _ = NaN"
| "dadd _ NaN = NaN"
| "dadd PInf NInf = NaN"
| "dadd NInf PInf = NaN"
| "dadd PInf _ = PInf"
| "dadd NInf _ = NInf"
| "dadd _ PInf = PInf"
| "dadd _ NInf = NInf"

definition dsub :: "double \<Rightarrow> double \<Rightarrow> double" where
  "dsub a b = dadd a (dneg b)"

text \<open>The infinity of the sign of a non-zero real.\<close>

definition inf_of_sign :: "real \<Rightarrow> double" where
  "inf_of_sign s = (if 0 < s then PInf else NInf)"

fun dmul :: "double \<Rightarrow> double \<Rightarrow> double" where
  "dmul (Fin a) (Fin b) = Fin (a * b)"
| "dmul NaN _ = NaN"
| "dmul _ NaN = NaN"
| "dmul PInf (Fin b) = (if b = 0 then NaN else inf_of_sign b)"
| "dmul NInf (Fin b) = (if b = 0 then NaN else inf_of_sign (- b))"
| "dmul (Fin a) PInf = (if a = 0 then NaN else inf_of_sign a)"
| "dmul (Fin a) NInf = (if a = 0 then NaN else inf_of_sign (- a))"
| "dmul PInf PInf = PInf"
| "dmul NInf NInf = PInf"
| "dmul PInf NInf = NInf"
| "dmul NInf PInf = NInf"

fun ddiv :: "double \<Rightarrow> double \<Rightarrow> double" where
  "ddiv (Fin a) (Fin b) =
     (if b = 0 then (if a = 0 then NaN else inf_of_sign a) else Fin (a / b))"
| "ddiv NaN _ = NaN"
| "ddiv _ NaN = NaN"
| "ddiv PInf (Fin b) = (if 0 \<le> b then PInf else NInf)"
| "ddiv NInf (Fin b) = (if 0 \<le> b then NInf else PInf)"
| "ddiv (Fin a) PInf = Fin 0"
| "ddiv (Fin a) NInf = Fin 0"
| "ddiv PInf PInf = NaN"
| "ddiv PInf NInf = NaN"
| "ddiv NInf PInf = NaN"
| "ddiv NInf NInf = NaN"

fun dsqrt :: "double \<Rightarrow> double" where
  "dsqrt (Fin a) = (if a < 0 then NaN else Fin (sqrt a))"
| "dsqrt PInf = PInf"
| "dsqrt NInf = NaN"
| "dsqrt NaN = NaN"

text \<open>The conversion of a C \<open>int\<close> to \<open>double\<close>, which is exact.\<close>

definition double_of_int :: "int \<Rightarrow> double" where
  "double_of_int n = Fin (of_int n)"


section \<open>The host's values, results and allocator\<close>

text \<open>
  What the extension sees of SQLite: the dynamically typed argument of a call with its
  type code, the result a callback leaves in the function context, and the aggregate
  context that SQLite keeps between the calls of one group or window partition.
\<close>

datatype sqlite_value =
    SqlInteger int
  | SqlFloat double
  | SqlText string
  | SqlBlob string
  | SqlNull

definition SQLITE_INTEGER :: int where "SQLITE_INTEGER = 1"
definition SQLITE_FLOAT :: int where "SQLITE_FLOAT = 2"
definition SQLITE_TEXT :: int where "SQLITE_TEXT = 3"
definition SQLITE_BLOB :: int where "SQLITE_BLOB = 4"
definition SQLITE_NULL :: int where "SQLITE_NULL = 5"

definition SQLITE_OK :: int where "SQLITE_OK = 0"
definition SQLITE_NOMEM :: int where "SQLITE_NOMEM = 7"

fun sqlite3_value_type :: "sqlite_value \<Rightarrow> int" where
  "sqlite3_value_type (SqlInteger _) = SQLITE_INTEGER"
| "sqlite3_value_type (SqlFloat _) = SQLITE_FLOAT"
| "sqlite3_value_type (SqlText _) = SQLITE_TEXT"
| "sqlite3_value_type (SqlBlob _) = SQLITE_BLOB"
| "sqlite3_value_type SqlNull = SQLITE_NULL"

text \<open>
  \<open>sqlite3_value_double\<close> on the two numeric types, the only ones \<open>stats_step\<close>
  converts. An integer converts to the real of the same value, for every integer: SQLite's
  integers are 64-bit, and the conversion of the program rounds those above \<open>2^53\<close>.
  SQLite's conversion of text and blobs parses a numeric prefix, which is not modelled:
  they read as 0.0 here, as NULL does in SQLite, and no callback converts them.
\<close>

fun sqlite3_value_double :: "sqlite_value \<Rightarrow> double" where
  "sqlite3_value_double (SqlInteger i) = double_of_int i"
| "sqlite3_value_double (SqlFloat d) = d"
| "sqlite3_value_double _ = Fin 0"

text \<open>
  The result left in the function context: nothing (\<open>NoResult\<close>, the state after a
  step or inverse call that reports no error), \<open>sqlite3_result_null\<close>,
  \<open>sqlite3_result_double\<close>, \<open>sqlite3_result_error\<close> with its message, and
  \<open>sqlite3_result_error_nomem\<close>.
\<close>

datatype sqlite_result =
    NoResult
  | ResultNull
  | ResultDouble double
  | ResultError string
  | ResultErrorNomem

text \<open>
  The outcome of the allocations of one call. \<open>ctx_alloc_ok\<close> says whether SQLite can
  allocate the aggregate context; \<open>malloc_result\<close> is \<open>None\<close> when \<open>malloc\<close> fails
  and otherwise gives the indeterminate contents of the fresh block, cell by cell.
  One call of \<open>stats_step\<close> runs \<open>malloc\<close> at most once: the buffer it has just
  initialised is empty, so it does not grow in the same call.
\<close>

record alloc_env =
  ctx_alloc_ok :: bool
  malloc_result :: "(nat \<Rightarrow> double) option"

definition malloc :: "alloc_env \<Rightarrow> int \<Rightarrow> double list option" where
  "malloc env n = map_option (\<lambda>g. map g [0..<nat n]) (malloc_result env)"


section \<open>The window state\<close>

definition INITIAL_CAPACITY :: int where "INITIAL_CAPACITY = 100"
definition CAPACITY_GROWTH_FACTOR :: int where "CAPACITY_GROWTH_FACTOR = 2"

text \<open>The largest value of a C \<open>int\<close>.\<close>

definition INT_MAX :: int where "INT_MAX = 2147483647"

text \<open>
  \<open>WindowStatsData\<close>. The pointer \<open>values\<close> is \<open>None\<close> when it is \<open>NULL\<close> and
  otherwise holds the allocated array; the fields \<open>values\<close> and \<open>sum\<close> carry the
  suffix \<open>_f\<close>. The C \<open>int\<close> fields are integers: the model covers the executions
  in which no \<open>int\<close> operation overflows. Lemma \<open>run_int_range\<close> below shows that
  these include every execution of fewer than \<open>2^30\<close> calls on one aggregate.
\<close>

record WindowStatsData =
  values_f :: "double list option"
  count :: int
  capacity :: int
  head :: int
  tail :: int
  sum_f :: double
  sum_sq :: double

record StatsWindowContext =
  data :: WindowStatsData

text \<open>The memory \<open>sqlite3_aggregate_context\<close> hands out on its first call is zeroed.\<close>

definition zeroed_data :: WindowStatsData where
  "zeroed_data = \<lparr>values_f = None, count = 0, capacity = 0, head = 0, tail = 0,
     sum_f = Fin 0, sum_sq = Fin 0\<rparr>"

definition zeroed_context :: StatsWindowContext where
  "zeroed_context = \<lparr>data = zeroed_data\<rparr>"

text \<open>
  \<open>sqlite3_aggregate_context(context, nBytes)\<close>: the context of this aggregate
  instance if it exists; otherwise a fresh zeroed one when \<open>nBytes > 0\<close> and the
  allocation succeeds, and \<open>NULL\<close> when \<open>nBytes = 0\<close> or the allocation fails.
\<close>

definition sqlite3_aggregate_context ::
  "alloc_env \<Rightarrow> StatsWindowContext option \<Rightarrow> nat \<Rightarrow> StatsWindowContext option" where
  "sqlite3_aggregate_context env agg nBytes =
     (case agg of
        Some ctx \<Rightarrow> Some ctx
      | None \<Rightarrow> if 0 < nBytes \<and> ctx_alloc_ok env then Some zeroed_context else None)"

definition sizeof_StatsWindowContext :: nat where
  "sizeof_StatsWindowContext = 40"


section \<open>Circular buffer and calculation helpers\<close>

definition get_circular_value :: "WindowStatsData \<Rightarrow> int \<Rightarrow> double" where
  "get_circular_value d logical_index =
     (let physical_index = (head d + logical_index) smod capacity d
      in the (values_f d) ! nat physical_index)"

definition add_to_circular_buffer :: "WindowStatsData \<Rightarrow> double \<Rightarrow> WindowStatsData" where
  "add_to_circular_buffer d v =
     d\<lparr>values_f := Some ((the (values_f d))[nat (tail d) := v]),
       tail := (tail d + 1) smod capacity d,
       count := count d + 1\<rparr>"

definition remove_from_circular_buffer :: "WindowStatsData \<Rightarrow> double \<times> WindowStatsData" where
  "remove_from_circular_buffer d =
     (if count d = 0 then (Fin 0, d)
      else
        let removed_value = the (values_f d) ! nat (head d)
        in (removed_value,
            d\<lparr>head := (head d + 1) smod capacity d, count := count d - 1\<rparr>))"

definition calculate_variance_sample :: "WindowStatsData \<Rightarrow> double" where
  "calculate_variance_sample d =
     (if count d < 2 then NaN
      else
        let mean = ddiv (sum_f d) (double_of_int (count d));
            variance_pop = dsub (ddiv (sum_sq d) (double_of_int (count d))) (dmul mean mean)
        in dmul variance_pop
             (ddiv (double_of_int (count d)) (double_of_int (count d - 1))))"

definition calculate_variance_population :: "WindowStatsData \<Rightarrow> double" where
  "calculate_variance_population d =
     (if count d < 1 then NaN
      else
        let mean = ddiv (sum_f d) (double_of_int (count d))
        in dsub (ddiv (sum_sq d) (double_of_int (count d))) (dmul mean mean))"

definition calculate_stddev_sample :: "WindowStatsData \<Rightarrow> double" where
  "calculate_stddev_sample d =
     (let variance = calculate_variance_sample d
      in if isnan variance then NaN else dsqrt variance)"

definition calculate_stddev_population :: "WindowStatsData \<Rightarrow> double" where
  "calculate_stddev_population d =
     (let variance = calculate_variance_population d
      in if isnan variance then NaN else dsqrt variance)"


section \<open>Context management and result handling\<close>

text \<open>
  \<open>init_window_stats_data\<close> and \<open>grow_stats_buffer\<close> return their status code with
  the state they leave. Both call \<open>sqlite3_result_error_nomem\<close> before they return
  \<open>SQLITE_NOMEM\<close>; \<open>stats_step\<close> below reports that result for them.
\<close>

definition init_window_stats_data :: "alloc_env \<Rightarrow> WindowStatsData \<Rightarrow> int \<times> WindowStatsData" where
  "init_window_stats_data env d =
     (let d1 = d\<lparr>capacity := INITIAL_CAPACITY\<rparr>
      in case malloc env (capacity d1) of
           None \<Rightarrow> (SQLITE_NOMEM, d1)
         | Some new_values \<Rightarrow>
             (SQLITE_OK,
              d1\<lparr>values_f := Some new_values, count := 0, head := 0, tail := 0,
                 sum_f := Fin 0, sum_sq := Fin 0\<rparr>))"

text \<open>The copy loop of \<open>grow_stats_buffer\<close>, from index \<open>i\<close> on.\<close>

function copy_loop :: "WindowStatsData \<Rightarrow> double list \<Rightarrow> int \<Rightarrow> double list" where
  "copy_loop d new_values i =
     (if i < count d
      then copy_loop d (new_values[nat i := get_circular_value d i]) (i + 1)
      else new_values)"
  by pat_completeness auto
termination
  by (relation "measure (\<lambda>(d, new_values, i). nat (count d - i))") auto

definition grow_stats_buffer :: "alloc_env \<Rightarrow> WindowStatsData \<Rightarrow> int \<times> WindowStatsData" where
  "grow_stats_buffer env d =
     (let new_capacity = capacity d * CAPACITY_GROWTH_FACTOR
      in case malloc env new_capacity of
           None \<Rightarrow> (SQLITE_NOMEM, d)
         | Some new_values \<Rightarrow>
             (SQLITE_OK,
              d\<lparr>values_f := Some (copy_loop d new_values 0),
                capacity := new_capacity,
                head := 0,
                tail := count d\<rparr>))"

definition set_result :: "double \<Rightarrow> sqlite_result" where
  "set_result result =
     (if isnan result \<or> isinf result then ResultNull else ResultDouble result)"


section \<open>The callbacks\<close>

text \<open>
  Each callback takes the aggregate context SQLite holds for the instance (\<open>None\<close>
  before the first allocation) and returns the result it reports with the context it
  leaves. \<open>argc\<close> is the length of \<open>argv\<close>.
\<close>

definition stats_step ::
  "alloc_env \<Rightarrow> StatsWindowContext option \<Rightarrow> sqlite_value list
     \<Rightarrow> sqlite_result \<times> StatsWindowContext option" where
  "stats_step env agg argv =
     (if int (length argv) \<noteq> 1
      then (ResultError ''Statistics functions require exactly 1 argument'', agg)
      else
        case sqlite3_aggregate_context env agg sizeof_StatsWindowContext of
          None \<Rightarrow> (ResultErrorNomem, None)
        | Some ctx \<Rightarrow>
            let (rc, d1) =
                  (if values_f (data ctx) = None
                   then init_window_stats_data env (data ctx)
                   else (SQLITE_OK, data ctx))
            in if rc \<noteq> SQLITE_OK then (ResultErrorNomem, Some (ctx\<lparr>data := d1\<rparr>))
               else
                 let value_type = sqlite3_value_type (argv ! 0)
                 in if value_type = SQLITE_NULL then (NoResult, Some (ctx\<lparr>data := d1\<rparr>))
                    else if value_type \<noteq> SQLITE_INTEGER \<and> value_type \<noteq> SQLITE_FLOAT
                    then (ResultError ''Invalid data type, expected numeric value.'',
                          Some (ctx\<lparr>data := d1\<rparr>))
                    else
                      let (rc2, d2) =
                            (if count d1 \<ge> capacity d1
                             then grow_stats_buffer env d1
                             else (SQLITE_OK, d1))
                      in if rc2 \<noteq> SQLITE_OK
                         then (ResultErrorNomem, Some (ctx\<lparr>data := d2\<rparr>))
                         else
                           let v = sqlite3_value_double (argv ! 0);
                               d3 = add_to_circular_buffer d2 v;
                               d4 = d3\<lparr>sum_f := dadd (sum_f d3) v\<rparr>;
                               d5 = d4\<lparr>sum_sq := dadd (sum_sq d4) (dmul v v)\<rparr>
                           in (NoResult, Some (ctx\<lparr>data := d5\<rparr>)))"

text \<open>
  \<open>stats_inverse\<close> asks for the context with \<open>nBytes = 0\<close>, which never allocates.
  SQLite calls it with the one argument the functions are registered for.
\<close>

definition no_alloc :: alloc_env where
  "no_alloc = \<lparr>ctx_alloc_ok = False, malloc_result = None\<rparr>"

definition stats_inverse ::
  "StatsWindowContext option \<Rightarrow> sqlite_value list
     \<Rightarrow> sqlite_result \<times> StatsWindowContext option" where
  "stats_inverse agg argv =
     (case sqlite3_aggregate_context no_alloc agg 0 of
        None \<Rightarrow> (NoResult, agg)
      | Some ctx \<Rightarrow>
          if values_f (data ctx) = None \<or> count (data ctx) \<le> 0 then (NoResult, agg)
          else if sqlite3_value_type (argv ! 0) = SQLITE_NULL then (NoResult, agg)
          else
            let (removed_value, d1) = remove_from_circular_buffer (data ctx);
                d2 = d1\<lparr>sum_f := dsub (sum_f d1) removed_value\<rparr>;
                d3 = d2\<lparr>sum_sq := dsub (sum_sq d2) (dmul removed_value removed_value)\<rparr>
            in (NoResult, Some (ctx\<lparr>data := d3\<rparr>)))"

type_synonym stats_func = "WindowStatsData \<Rightarrow> double"

definition stats_value_helper ::
  "StatsWindowContext option \<Rightarrow> stats_func \<Rightarrow> int \<Rightarrow> sqlite_result" where
  "stats_value_helper agg func min_count =
     (case sqlite3_aggregate_context no_alloc agg 0 of
        None \<Rightarrow> ResultNull
      | Some ctx \<Rightarrow>
          if values_f (data ctx) = None \<or> count (data ctx) < min_count then ResultNull
          else set_result (func (data ctx)))"

text \<open>\<open>stats_final_helper\<close> also frees the buffer: \<open>values\<close> is \<open>NULL\<close> afterwards.\<close>

definition stats_final_helper ::
  "StatsWindowContext option \<Rightarrow> stats_func \<Rightarrow> int
     \<Rightarrow> sqlite_result \<times> StatsWindowContext option" where
  "stats_final_helper agg func min_count =
     (case sqlite3_aggregate_context no_alloc agg 0 of
        None \<Rightarrow> (ResultNull, agg)
      | Some ctx \<Rightarrow>
          let r = (if values_f (data ctx) \<noteq> None \<and> min_count \<le> count (data ctx)
                   then set_result (func (data ctx))
                   else ResultNull)
          in if values_f (data ctx) \<noteq> None
             then (r, Some (ctx\<lparr>data := (data ctx)\<lparr>values_f := None\<rparr>\<rparr>))
             else (r, agg))"

definition stddev_samp_value :: "StatsWindowContext option \<Rightarrow> sqlite_result" where
  "stddev_samp_value agg = stats_value_helper agg calculate_stddev_sample 2"

definition stddev_pop_value :: "StatsWindowContext option \<Rightarrow> sqlite_result" where
  "stddev_pop_value agg = stats_value_helper agg calculate_stddev_population 1"

definition variance_samp_value :: "StatsWindowContext option \<Rightarrow> sqlite_result" where
  "variance_samp_value agg = stats_value_helper agg calculate_variance_sample 2"

definition variance_pop_value :: "StatsWindowContext option \<Rightarrow> sqlite_result" where
  "variance_pop_value agg = stats_value_helper agg calculate_variance_population 1"

definition stddev_samp_final ::
  "StatsWindowContext option \<Rightarrow> sqlite_result \<times> StatsWindowContext option" where
  "stddev_samp_final agg = stats_final_helper agg calculate_stddev_sample 2"

definition stddev_pop_final ::
  "StatsWindowContext option \<Rightarrow> sqlite_result \<times> StatsWindowContext option" where
  "stddev_pop_final agg = stats_final_helper agg calculate_stddev_population 1"

definition variance_samp_final ::
  "StatsWindowContext option \<Rightarrow> sqlite_result \<times> StatsWindowContext option" where
  "variance_samp_final agg = stats_final_helper agg calculate_variance_sample 2"

definition variance_pop_final ::
  "StatsWindowContext option \<Rightarrow> sqlite_result \<times> StatsWindowContext option" where
  "variance_pop_final agg = stats_final_helper agg calculate_variance_population 1"


section \<open>Specification-level notions\<close>

text \<open>
  The representation invariant of an allocated buffer: the array has \<open>capacity\<close> cells,
  \<open>head\<close> and \<open>count\<close> are in range, and \<open>tail\<close> is \<open>count\<close> cells after
  \<open>head\<close>, modulo the capacity.
\<close>

definition buffer_wf :: "WindowStatsData \<Rightarrow> bool" where
  "buffer_wf d =
     (case values_f d of
        None \<Rightarrow> False
      | Some vs \<Rightarrow>
          int (length vs) = capacity d \<and> 0 < capacity d \<and>
          0 \<le> head d \<and> head d < capacity d \<and>
          0 \<le> count d \<and> count d \<le> capacity d \<and>
          tail d = (head d + count d) mod capacity d)"

text \<open>The buffered values from the oldest to the newest, read through \<open>get_circular_value\<close>.\<close>

definition buffer_contents :: "WindowStatsData \<Rightarrow> double list" where
  "buffer_contents d = map (\<lambda>i. get_circular_value d (int i)) [0..<nat (count d)]"

text \<open>The physical index of a logical index, without the remainder operation.\<close>

definition phys :: "WindowStatsData \<Rightarrow> int \<Rightarrow> int" where
  "phys d i = (if head d + i < capacity d then head d + i else head d + i - capacity d)"

text \<open>
  SQLite drives one aggregate instance by a sequence of step and inverse calls, each with
  one argument. A step carries the outcome of the allocations it may run.
\<close>

datatype call = Step alloc_env sqlite_value | Inverse sqlite_value

fun run :: "call list \<Rightarrow> StatsWindowContext option \<Rightarrow> StatsWindowContext option" where
  "run [] agg = agg"
| "run (Step env v # cs) agg = run cs (snd (stats_step env agg [v]))"
| "run (Inverse v # cs) agg = run cs (snd (stats_inverse agg [v]))"

definition numeric :: "sqlite_value \<Rightarrow> bool" where
  "numeric v = (sqlite3_value_type v = SQLITE_INTEGER \<or> sqlite3_value_type v = SQLITE_FLOAT)"

definition alloc_ok :: "alloc_env \<Rightarrow> bool" where
  "alloc_ok env = (ctx_alloc_ok env \<and> malloc_result env \<noteq> None)"

definition invalid_msg :: string where
  "invalid_msg = ''Invalid data type, expected numeric value.''"

text \<open>
  The statistics of an aggregate context: those of its data, and those of zeroed memory
  while SQLite has allocated no context. The context is initialised once its buffer is
  allocated; before that nothing is buffered.
\<close>

definition agg_data :: "StatsWindowContext option \<Rightarrow> WindowStatsData" where
  "agg_data agg = (case agg of None \<Rightarrow> zeroed_data | Some ctx \<Rightarrow> data ctx)"

definition initialised :: "StatsWindowContext option \<Rightarrow> bool" where
  "initialised agg = (case agg of None \<Rightarrow> False | Some ctx \<Rightarrow> values_f (data ctx) \<noteq> None)"

definition agg_contents :: "StatsWindowContext option \<Rightarrow> double list" where
  "agg_contents agg = (if initialised agg then buffer_contents (agg_data agg) else [])"

definition agg_wf :: "StatsWindowContext option \<Rightarrow> bool" where
  "agg_wf agg =
     (if initialised agg then buffer_wf (agg_data agg)
      else count (agg_data agg) = 0 \<and> sum_f (agg_data agg) = Fin 0 \<and>
           sum_sq (agg_data agg) = Fin 0)"

text \<open>The update of the buffer and of the two sums by one inserted value, as the last
  four statements of \<open>stats_step\<close> make it.\<close>

definition push_value :: "WindowStatsData \<Rightarrow> double \<Rightarrow> WindowStatsData" where
  "push_value d x =
     (let d3 = add_to_circular_buffer d x;
          d4 = d3\<lparr>sum_f := dadd (sum_f d3) x\<rparr>
      in d4\<lparr>sum_sq := dadd (sum_sq d4) (dmul x x)\<rparr>)"

text \<open>Two contexts with the same buffered values, count and sums.\<close>

definition same_stats :: "StatsWindowContext option \<Rightarrow> StatsWindowContext option \<Rightarrow> bool" where
  "same_stats agg agg' =
     (agg_contents agg' = agg_contents agg \<and>
      count (agg_data agg') = count (agg_data agg) \<and>
      sum_f (agg_data agg') = sum_f (agg_data agg) \<and>
      sum_sq (agg_data agg') = sum_sq (agg_data agg))"

text \<open>
  The real number a finite numeric argument stands for, and the arguments that are not
  an infinite or NaN float.
\<close>

fun arg_real :: "sqlite_value \<Rightarrow> real option" where
  "arg_real (SqlInteger i) = Some (of_int i)"
| "arg_real (SqlFloat (Fin r)) = Some r"
| "arg_real _ = None"

fun arg_finite :: "sqlite_value \<Rightarrow> bool" where
  "arg_finite (SqlFloat x) = isfinite x"
| "arg_finite _ = True"

fun call_finite :: "call \<Rightarrow> bool" where
  "call_finite (Step env v) = arg_finite v"
| "call_finite (Inverse v) = True"

fun call_alloc_ok :: "call \<Rightarrow> bool" where
  "call_alloc_ok (Step env v) = alloc_ok env"
| "call_alloc_ok (Inverse v) = True"

text \<open>
  The window as the specification describes it, a queue of the doubles themselves: a step
  with a numeric value appends it at the back, a step with any other value leaves the
  queue alone, an inverse call for a non-null row removes the value at the front, and does
  nothing on the empty queue.
\<close>

fun queue_call :: "call \<Rightarrow> double list \<Rightarrow> double list" where
  "queue_call (Step env v) q = (if numeric v then q @ [sqlite3_value_double v] else q)"
| "queue_call (Inverse v) q = (if v = SqlNull then q else tl q)"

fun queue_run :: "call list \<Rightarrow> double list \<Rightarrow> double list" where
  "queue_run [] q = q"
| "queue_run (c # cs) q = queue_run cs (queue_call c q)"

text \<open>
  The same queue for finite arguments, as a queue of reals: a step with a numeric
  value appends it, a step with any other value leaves the queue alone, an inverse call
  for a non-null row removes the oldest value, and does nothing on the empty queue.
\<close>

fun fifo_call :: "call \<Rightarrow> real list \<Rightarrow> real list" where
  "fifo_call (Step env v) q = (case arg_real v of Some r \<Rightarrow> q @ [r] | None \<Rightarrow> q)"
| "fifo_call (Inverse v) q = (if v = SqlNull then q else tl q)"

fun fifo_run :: "call list \<Rightarrow> real list \<Rightarrow> real list" where
  "fifo_run [] q = q"
| "fifo_run (c # cs) q = fifo_run cs (fifo_call c q)"

text \<open>The invariant of the running sums: the context buffers the reals \<open>rs\<close>, in this
  order, and its sums are their sum and the sum of their squares.\<close>

definition agg_inv :: "StatsWindowContext option \<Rightarrow> real list \<Rightarrow> bool" where
  "agg_inv agg rs =
     (agg_wf agg \<and> agg_contents agg = map Fin rs \<and>
      count (agg_data agg) = int (length rs) \<and>
      sum_f (agg_data agg) = Fin (sum_list rs) \<and>
      sum_sq (agg_data agg) = Fin (\<Sum>r\<leftarrow>rs. r * r))"

text \<open>The textbook statistics, computed from the values themselves.\<close>

definition mean :: "real list \<Rightarrow> real" where
  "mean rs = sum_list rs / real (length rs)"

definition direct_variance_population :: "real list \<Rightarrow> real" where
  "direct_variance_population rs = (\<Sum>x\<leftarrow>rs. (x - mean rs)\<^sup>2) / real (length rs)"

definition direct_variance_sample :: "real list \<Rightarrow> real" where
  "direct_variance_sample rs = (\<Sum>x\<leftarrow>rs. (x - mean rs)\<^sup>2) / (real (length rs) - 1)"


text \<open>
  The eight query callbacks, each with the statistic it computes, and what sanitization
  means for one of them on a context: a NaN or infinite statistic is reported as null, a
  reported number is finite and is the statistic, and on an initialised context a finite
  statistic is reported as that number.
\<close>

definition queries :: "((StatsWindowContext option \<Rightarrow> sqlite_result) \<times> stats_func) list" where
  "queries =
     [(stddev_samp_value, calculate_stddev_sample),
      (stddev_pop_value, calculate_stddev_population),
      (variance_samp_value, calculate_variance_sample),
      (variance_pop_value, calculate_variance_population),
      (\<lambda>agg. fst (stddev_samp_final agg), calculate_stddev_sample),
      (\<lambda>agg. fst (stddev_pop_final agg), calculate_stddev_population),
      (\<lambda>agg. fst (variance_samp_final agg), calculate_variance_sample),
      (\<lambda>agg. fst (variance_pop_final agg), calculate_variance_population)]"

definition sanitized ::
  "(StatsWindowContext option \<Rightarrow> sqlite_result) \<Rightarrow> stats_func \<Rightarrow> StatsWindowContext option \<Rightarrow> bool" where
  "sanitized q f agg =
     ((isnan (f (agg_data agg)) \<or> isinf (f (agg_data agg)) \<longrightarrow> q agg = ResultNull) \<and>
      (\<forall>x. q agg = ResultDouble x \<longrightarrow> isfinite x \<and> x = f (agg_data agg)) \<and>
      (initialised agg \<and> isfinite (f (agg_data agg)) \<longrightarrow> q agg = ResultDouble (f (agg_data agg))))"


section \<open>Concrete inputs\<close>

text \<open>
  Two allocators: one that always succeeds and hands out zero-filled blocks, and one whose
  \<open>malloc\<close> fails.
\<close>

definition env_ok :: alloc_env where
  "env_ok = \<lparr>ctx_alloc_ok = True, malloc_result = Some (\<lambda>_. Fin 0)\<rparr>"

definition env_nomem :: alloc_env where
  "env_nomem = \<lparr>ctx_alloc_ok = True, malloc_result = None\<rparr>"

text \<open>
  Call sequences on a fresh aggregate: a short window that slides once and sees a null; a
  window that fills the initial buffer and slides past its end, so that \<open>tail\<close> wraps
  around to the front of the array; a single insert; an infinite float followed by an
  integer; and the inserts that fill the initial buffer exactly, and by one more.
\<close>

definition demo_calls :: "call list" where
  "demo_calls = [Step env_ok (SqlInteger 3), Step env_ok (SqlFloat (Fin (1/2))),
     Step env_ok (SqlInteger 5), Inverse (SqlInteger 3), Step env_ok SqlNull]"

definition wrap_calls :: "call list" where
  "wrap_calls = map (\<lambda>i. Step env_ok (SqlInteger i)) [1..100] @
     [Inverse (SqlInteger 1), Inverse (SqlInteger 2), Inverse (SqlInteger 3),
      Step env_ok (SqlInteger 101), Step env_ok (SqlInteger 102)]"

definition one_call :: "call list" where
  "one_call = [Step env_ok (SqlInteger 7)]"

definition inf_calls :: "call list" where
  "inf_calls = [Step env_ok (SqlFloat PInf), Step env_ok (SqlInteger 1)]"

text \<open>
  Windows that an infinite float passes through: alone; followed by 1 and then evicted;
  followed by 1 and 2 and then evicted.
\<close>

definition one_inf :: "call list" where
  "one_inf = [Step env_ok (SqlFloat PInf)]"

definition inf_then_one :: "call list" where
  "inf_then_one = [Step env_ok (SqlFloat PInf), Step env_ok (SqlInteger 1),
     Inverse (SqlFloat PInf)]"

definition inf_window :: "call list" where
  "inf_window = [Step env_ok (SqlFloat PInf), Step env_ok (SqlInteger 1),
     Step env_ok (SqlInteger 2), Inverse (SqlFloat PInf)]"

text \<open>
  Windows that the large value \<open>1e8\<close> passes through, and the states binary64
  arithmetic leaves after them. The square \<open>1e16\<close> absorbs the 1 added to it
  (\<open>1e16 + 1\<close> rounds to \<open>1e16\<close>), so once \<open>1e8\<close> is evicted \<open>sum_sq\<close>
  is 1 less than the sum of the squares of the values left: 0 instead of 1, and 4 instead
  of 5. The model computes the exact sums; these two states are written by hand, with
  \<open>sum_sq\<close> set to the rounded value.
\<close>

definition absorb_one_calls :: "call list" where
  "absorb_one_calls = [Step env_ok (SqlInteger 100000000), Step env_ok (SqlInteger 1),
     Inverse (SqlInteger 100000000)]"

definition absorb_calls :: "call list" where
  "absorb_calls = absorb_one_calls @ [Step env_ok (SqlInteger 2)]"

definition absorbed_one_agg :: "StatsWindowContext option" where
  "absorbed_one_agg =
     Some \<lparr>data = (agg_data (run absorb_one_calls None))\<lparr>sum_sq := Fin 0\<rparr>\<rparr>"

definition absorbed_agg :: "StatsWindowContext option" where
  "absorbed_agg = Some \<lparr>data = (agg_data (run absorb_calls None))\<lparr>sum_sq := Fin 4\<rparr>\<rparr>"

definition full_values :: "sqlite_value list" where
  "full_values = map SqlInteger [1..100]"

definition full_agg :: "StatsWindowContext option" where
  "full_agg = run (map (Step env_ok) full_values) None"

definition overfull_values :: "sqlite_value list" where
  "overfull_values = map SqlInteger [1..101]"

text \<open>
  A state with three buffered values 0.1 whose sums carry a rounding error: \<open>sum\<close> is
  0.3 and \<open>sum_sq\<close> is \<open>3e-17\<close> below 0.03, so that \<open>sum_sq/3\<close> is \<open>1e-17\<close>
  below the square of the mean.
\<close>

definition rounded_state :: WindowStatsData where
  "rounded_state =
     \<lparr>values_f = Some (replicate 100 (Fin (1/10))), count = 3, capacity = 100,
      head = 0, tail = 3, sum_f = Fin (3/10), sum_sq = Fin (3/100 - 3/10^17)\<rparr>"

definition rounded_agg :: "StatsWindowContext option" where
  "rounded_agg = Some \<lparr>data = rounded_state\<rparr>"

text \<open>
  A full buffer of capacity two that has wrapped (the oldest value, 5, is in cell 1 and
  the newest, 7, in cell 0), and the state growth makes of it with \<open>env_ok\<close>.
\<close>

definition small_full :: WindowStatsData where
  "small_full =
     \<lparr>values_f = Some [Fin 7, Fin 5], count = 2, capacity = 2, head = 1, tail = 1,
      sum_f = Fin 12, sum_sq = Fin 74\<rparr>"

definition small_grown :: WindowStatsData where
  "small_grown =
     \<lparr>values_f = Some [Fin 5, Fin 7, Fin 0, Fin 0], count = 2, capacity = 4, head = 0,
      tail = 2, sum_f = Fin 12, sum_sq = Fin 74\<rparr>"


section \<open>The circular buffer\<close>

lemma smod_nonneg: "0 \<le> (a::int) \<Longrightarrow> 0 < b \<Longrightarrow> a smod b = a mod b"
  by (simp add: smod_int_alt_def sgn_if)

lemma mod_wrap:
  assumes "0 \<le> (x::int)" "x < 2 * c"
  shows "x mod c = (if x < c then x else x - c)"
proof (cases "x < c")
  case True
  then show ?thesis using assms by simp
next
  case False
  have "x mod c = (x - c) mod c" by simp
  also have "\<dots> = x - c" using False assms by (intro mod_pos_pos_trivial) simp_all
  finally show ?thesis using False by simp
qed

lemma buffer_wfD:
  assumes "buffer_wf d"
  obtains vs where "values_f d = Some vs" "int (length vs) = capacity d" "0 < capacity d"
    "0 \<le> head d" "head d < capacity d" "0 \<le> count d" "count d \<le> capacity d"
    "tail d = (head d + count d) mod capacity d"
  using assms unfolding buffer_wf_def by (cases "values_f d") auto

lemma get_circular_value_phys:
  assumes "buffer_wf d" "0 \<le> i" "i < capacity d"
  shows "get_circular_value d i = the (values_f d) ! nat (phys d i)"
proof -
  from assms(1) obtain vs where "0 < capacity d" "0 \<le> head d" "head d < capacity d"
    by (rule buffer_wfD)
  then have "(head d + i) smod capacity d = phys d i"
    using assms(2,3) by (simp add: smod_nonneg mod_wrap phys_def)
  then show ?thesis by (simp add: get_circular_value_def)
qed

lemma tail_phys:
  assumes "buffer_wf d"
  shows "tail d = (if count d = capacity d then head d else phys d (count d))"
proof -
  from assms(1) obtain vs where "0 < capacity d" "0 \<le> head d" "head d < capacity d"
     "0 \<le> count d" "count d \<le> capacity d" "tail d = (head d + count d) mod capacity d"
    by (rule buffer_wfD)
  then show ?thesis by (simp add: mod_wrap phys_def)
qed

lemma phys_range:
  assumes "buffer_wf d" "0 \<le> i" "i < capacity d"
  shows "0 \<le> phys d i \<and> phys d i < capacity d"
  using assms by (auto elim!: buffer_wfD simp: phys_def)

lemma phys_inj:
  assumes "buffer_wf d" "0 \<le> i" "i < capacity d" "0 \<le> j" "j < capacity d" "i \<noteq> j"
  shows "phys d i \<noteq> phys d j"
  using assms by (auto elim!: buffer_wfD simp: phys_def)

lemma length_buffer_contents [simp]: "length (buffer_contents d) = nat (count d)"
  by (simp add: buffer_contents_def)

lemma nth_buffer_contents:
  "i < nat (count d) \<Longrightarrow> buffer_contents d ! i = get_circular_value d (int i)"
  by (simp add: buffer_contents_def)

lemma add_wf:
  assumes "buffer_wf d" "count d < capacity d"
  shows "buffer_wf (add_to_circular_buffer d v)"
proof -
  from assms(1) obtain vs where vs: "values_f d = Some vs" "int (length vs) = capacity d"
    and c: "0 < capacity d" "0 \<le> head d" "head d < capacity d" "0 \<le> count d"
    and t: "tail d = (head d + count d) mod capacity d"
    by (rule buffer_wfD)
  have "0 \<le> tail d" using t c by simp
  then have "(tail d + 1) smod capacity d = (head d + (count d + 1)) mod capacity d"
    using c t by (simp add: smod_nonneg mod_simps add.assoc)
  then show ?thesis
    using vs c assms(2) by (simp add: buffer_wf_def add_to_circular_buffer_def)
qed

lemma add_contents:
  assumes "buffer_wf d" "count d < capacity d"
  shows "buffer_contents (add_to_circular_buffer d v) = buffer_contents d @ [v]"
proof (rule nth_equalityI)
  from assms(1) obtain vs where vs: "values_f d = Some vs" "int (length vs) = capacity d"
    and c: "0 < capacity d" "0 \<le> head d" "head d < capacity d" "0 \<le> count d"
    by (rule buffer_wfD)
  let ?d' = "add_to_circular_buffer d v"
  have wf': "buffer_wf ?d'" using assms by (rule add_wf)
  have f: "head ?d' = head d" "capacity ?d' = capacity d" "count ?d' = count d + 1"
    "values_f ?d' = Some (vs[nat (tail d) := v])"
    using vs by (simp_all add: add_to_circular_buffer_def)
  have ph: "phys ?d' i = phys d i" for i by (simp add: phys_def f)
  have t: "tail d = phys d (count d)" using tail_phys[OF assms(1)] assms(2) by simp
  show "length (buffer_contents ?d') = length (buffer_contents d @ [v])"
    using c by (simp add: f nat_add_distrib)
  fix i assume "i < length (buffer_contents ?d')"
  then have i: "int i \<le> count d" using c by (simp add: f)
  then have ic: "0 \<le> int i" "int i < capacity d" using assms(2) by simp_all
  have pr: "0 \<le> phys d (int i)" "phys d (int i) < capacity d"
    using phys_range[OF assms(1) ic] by simp_all
  have pc: "0 \<le> phys d (count d)" "phys d (count d) < capacity d"
    using phys_range[OF assms(1) c(4) assms(2)] by simp_all
  have g': "buffer_contents ?d' ! i = vs[nat (phys d (count d)) := v] ! nat (phys d (int i))"
    using i c get_circular_value_phys[OF wf', of "int i"] ic
    by (simp add: nth_buffer_contents f ph t)
  show "buffer_contents ?d' ! i = (buffer_contents d @ [v]) ! i"
  proof (cases "int i = count d")
    case True
    then have "i = nat (count d)" by simp
    then show ?thesis using g' True pc vs by (simp add: nth_append)
  next
    case False
    with i have lt: "int i < count d" by simp
    have "phys d (int i) \<noteq> phys d (count d)"
      using phys_inj[OF assms(1) ic c(4) assms(2)] False by simp
    then have "nat (phys d (int i)) \<noteq> nat (phys d (count d))"
      using pr pc by simp
    then have "buffer_contents ?d' ! i = vs ! nat (phys d (int i))"
      using g' by simp
    also have "\<dots> = buffer_contents d ! i"
      using lt get_circular_value_phys[OF assms(1) ic] vs by (simp add: nth_buffer_contents)
    finally show ?thesis using lt by (simp add: nth_append zless_nat_eq_int_zless)
  qed
qed

lemma remove_wf:
  assumes "buffer_wf d" "0 < count d"
  shows "buffer_wf (snd (remove_from_circular_buffer d))"
proof -
  from assms(1) obtain vs where vs: "values_f d = Some vs" "int (length vs) = capacity d"
    and c: "0 < capacity d" "0 \<le> head d" "head d < capacity d" "count d \<le> capacity d"
    and t: "tail d = (head d + count d) mod capacity d"
    by (rule buffer_wfD)
  have "((head d + 1) mod capacity d + (count d - 1)) mod capacity d
          = (head d + count d) mod capacity d"
    by (simp add: mod_simps)
  then show ?thesis
    using vs c t assms(2)
    by (simp add: buffer_wf_def remove_from_circular_buffer_def smod_nonneg)
qed

lemma remove_value:
  assumes "buffer_wf d" "0 < count d"
  shows "fst (remove_from_circular_buffer d) = hd (buffer_contents d)"
proof -
  from assms(1) obtain vs where c: "0 < capacity d" "0 \<le> head d" "head d < capacity d"
    by (rule buffer_wfD)
  have "buffer_contents d \<noteq> []" using assms(2) by (simp add: buffer_contents_def)
  then have "hd (buffer_contents d) = buffer_contents d ! 0" by (simp add: hd_conv_nth)
  also have "\<dots> = the (values_f d) ! nat (phys d 0)"
    using assms(2) c get_circular_value_phys[OF assms(1), of 0]
    by (simp add: nth_buffer_contents)
  finally show ?thesis using assms(2) c
    by (simp add: remove_from_circular_buffer_def phys_def)
qed

lemma remove_contents:
  assumes "buffer_wf d" "0 < count d"
  shows "buffer_contents (snd (remove_from_circular_buffer d)) = tl (buffer_contents d)"
proof (rule nth_equalityI)
  from assms(1) obtain vs where vs: "values_f d = Some vs"
    and c: "0 < capacity d" "0 \<le> head d" "head d < capacity d" "count d \<le> capacity d"
    by (rule buffer_wfD)
  let ?d' = "snd (remove_from_circular_buffer d)"
  have wf': "buffer_wf ?d'" using assms by (rule remove_wf)
  have f: "head ?d' = (if head d + 1 < capacity d then head d + 1 else 0)"
    "capacity ?d' = capacity d" "count ?d' = count d - 1" "values_f ?d' = Some vs"
    using vs assms(2) c by (simp_all add: remove_from_circular_buffer_def smod_nonneg mod_wrap)
  show "length (buffer_contents ?d') = length (tl (buffer_contents d))"
    using assms(2) by (simp add: f nat_diff_distrib)
  fix i assume "i < length (buffer_contents ?d')"
  then have i: "int i < count d - 1" by (simp add: f)
  then have ic: "0 \<le> int i" "int i < capacity d" "0 \<le> int i + 1" "int i + 1 < capacity d"
    using c by simp_all
  have ph: "phys ?d' (int i) = phys d (int i + 1)"
    using c i by (auto simp: phys_def f)
  have "buffer_contents ?d' ! i = vs ! nat (phys d (int i + 1))"
    using i get_circular_value_phys[OF wf', of "int i"] ic
    by (simp add: nth_buffer_contents f ph)
  also have "\<dots> = buffer_contents d ! Suc i"
    using i get_circular_value_phys[OF assms(1) ic(3,4)] vs
    by (simp add: nth_buffer_contents nat_less_iff add.commute)
  also have "\<dots> = tl (buffer_contents d) ! i"
    using i by (simp add: nth_tl nat_less_iff)
  finally show "buffer_contents ?d' ! i = tl (buffer_contents d) ! i" .
qed

declare copy_loop.simps [simp del]

lemma length_copy_loop [simp]: "length (copy_loop d new_values i) = length new_values"
proof (induction d new_values i rule: copy_loop.induct)
  case (1 d new_values i)
  then show ?case by (subst copy_loop.simps) simp
qed

lemma nth_copy_loop:
  "0 \<le> i \<Longrightarrow> k < length new_values \<Longrightarrow>
   copy_loop d new_values i ! k =
     (if i \<le> int k \<and> int k < count d then get_circular_value d (int k) else new_values ! k)"
proof (induction d new_values i rule: copy_loop.induct)
  case (1 d new_values i)
  show ?case
  proof (cases "i < count d")
    case True
    have "copy_loop d new_values i ! k =
            copy_loop d (new_values[nat i := get_circular_value d i]) (i + 1) ! k"
      using True by (subst copy_loop.simps) simp
    also have "\<dots> = (if i + 1 \<le> int k \<and> int k < count d then get_circular_value d (int k)
                     else new_values[nat i := get_circular_value d i] ! k)"
      using "1.IH"[OF True] "1.prems" by simp
    also have "\<dots> = (if i \<le> int k \<and> int k < count d then get_circular_value d (int k)
                     else new_values ! k)"
    proof (cases "int k = i")
      case True
      then have "nat i = k" by simp
      then show ?thesis using True \<open>i < count d\<close> "1.prems" by simp
    next
      case False
      then have "nat i \<noteq> k" using "1.prems" by auto
      then show ?thesis using False by auto
    qed
    finally show ?thesis .
  next
    case False
    then show ?thesis by (subst copy_loop.simps) auto
  qed
qed

lemma grow_fail:
  "malloc_result env = None \<Longrightarrow> grow_stats_buffer env d = (SQLITE_NOMEM, d)"
  by (simp add: grow_stats_buffer_def malloc_def)

lemma grow_ok:
  assumes "malloc_result env = Some g"
  shows "grow_stats_buffer env d =
           (SQLITE_OK,
            d\<lparr>values_f := Some (copy_loop d (map g [0..<nat (capacity d * 2)]) 0),
              capacity := capacity d * 2, head := 0, tail := count d\<rparr>)"
  using assms by (simp add: grow_stats_buffer_def malloc_def CAPACITY_GROWTH_FACTOR_def Let_def)

lemma grow_wf:
  assumes "buffer_wf d" "grow_stats_buffer env d = (SQLITE_OK, d')"
  shows "buffer_wf d'"
proof -
  from assms(2) obtain g where g: "malloc_result env = Some g"
    by (cases "malloc_result env") (auto simp: grow_fail SQLITE_OK_def SQLITE_NOMEM_def)
  from assms(1) obtain vs where c: "0 < capacity d" "0 \<le> count d" "count d \<le> capacity d"
    by (rule buffer_wfD)
  show ?thesis using assms(2) c unfolding grow_ok[OF g]
    by (auto simp: buffer_wf_def)
qed

lemma grow_contents:
  assumes "buffer_wf d" "grow_stats_buffer env d = (SQLITE_OK, d')"
  shows "buffer_contents d' = buffer_contents d"
proof (rule nth_equalityI)
  from assms(2) obtain g where g: "malloc_result env = Some g"
    by (cases "malloc_result env") (auto simp: grow_fail SQLITE_OK_def SQLITE_NOMEM_def)
  from assms(1) obtain vs where c: "0 < capacity d" "0 \<le> count d" "count d \<le> capacity d"
    by (rule buffer_wfD)
  let ?new = "map g [0..<nat (capacity d * 2)]"
  have d': "d' = d\<lparr>values_f := Some (copy_loop d ?new 0),
              capacity := capacity d * 2, head := 0, tail := count d\<rparr>"
    using assms(2) unfolding grow_ok[OF g] by simp
  have wf': "buffer_wf d'" using assms by (rule grow_wf)
  show "length (buffer_contents d') = length (buffer_contents d)"
    by (simp add: d')
  fix i assume "i < length (buffer_contents d')"
  then have i: "int i < count d" by (simp add: d')
  then have ic: "int i < capacity d'" "k = i \<Longrightarrow> k < length ?new" for k
    using c by (simp_all add: d')
  have cnt: "count d' = count d" and v': "the (values_f d') = copy_loop d ?new 0"
    by (simp_all add: d')
  have "phys d' (int i) = int i" using i c by (simp add: phys_def d')
  then have "get_circular_value d' (int i) = copy_loop d ?new 0 ! i"
    using get_circular_value_phys[OF wf', of "int i"] ic(1) by (simp add: v')
  then have "buffer_contents d' ! i = copy_loop d ?new 0 ! i"
    using i by (simp add: nth_buffer_contents cnt)
  also have "\<dots> = get_circular_value d (int i)"
    using nth_copy_loop[of 0 i ?new d] ic(2) i by simp
  finally show "buffer_contents d' ! i = buffer_contents d ! i"
    using i by (simp add: nth_buffer_contents)
qed

lemma buffer_wf_sum_update [simp]:
  "buffer_wf (d\<lparr>sum_f := x\<rparr>) = buffer_wf d"
  "buffer_wf (d\<lparr>sum_sq := y\<rparr>) = buffer_wf d"
  by (simp_all add: buffer_wf_def split: option.splits)

lemma buffer_contents_sum_update [simp]:
  "buffer_contents (d\<lparr>sum_f := x\<rparr>) = buffer_contents d"
  "buffer_contents (d\<lparr>sum_sq := y\<rparr>) = buffer_contents d"
  by (simp_all add: buffer_contents_def get_circular_value_def)

lemma init_fail:
  "malloc_result env = None \<Longrightarrow>
   init_window_stats_data env d = (SQLITE_NOMEM, d\<lparr>capacity := INITIAL_CAPACITY\<rparr>)"
  by (simp add: init_window_stats_data_def malloc_def Let_def)

lemma init_ok:
  "malloc_result env = Some g \<Longrightarrow>
   init_window_stats_data env d =
     (SQLITE_OK,
      d\<lparr>capacity := INITIAL_CAPACITY, values_f := Some (map g [0..<100]),
        count := 0, head := 0, tail := 0, sum_f := Fin 0, sum_sq := Fin 0\<rparr>)"
  by (simp add: init_window_stats_data_def malloc_def Let_def INITIAL_CAPACITY_def)

lemmas type_codes = SQLITE_INTEGER_def SQLITE_FLOAT_def SQLITE_TEXT_def SQLITE_BLOB_def
  SQLITE_NULL_def

lemma zeroed_values [simp]: "values_f zeroed_data = None"
  by (simp add: zeroed_data_def)

lemma agg_simps [simp]:
  "agg_data (Some ctx) = data ctx"
  "agg_data None = zeroed_data"
  "initialised None = False"
  "initialised (Some ctx) = (values_f (data ctx) \<noteq> None)"
  by (simp_all add: agg_data_def initialised_def)

lemma push_value_fields:
  assumes "buffer_wf d" "count d < capacity d"
  shows "buffer_wf (push_value d x)" "buffer_contents (push_value d x) = buffer_contents d @ [x]"
    "sum_f (push_value d x) = dadd (sum_f d) x"
    "sum_sq (push_value d x) = dadd (sum_sq d) (dmul x x)"
    "capacity (push_value d x) = capacity d" "head (push_value d x) = head d"
    "count (push_value d x) = count d + 1"
  using add_wf[OF assms, of x] add_contents[OF assms, of x]
  by (simp_all add: push_value_def Let_def) (simp_all add: add_to_circular_buffer_def)

lemma step_numeric_eq:
  assumes "values_f (data ctx) \<noteq> None" "numeric v"
  shows "stats_step env (Some ctx) [v] =
     (if count (data ctx) \<ge> capacity (data ctx)
      then (case malloc_result env of
              None \<Rightarrow> (ResultErrorNomem, Some ctx)
            | Some g \<Rightarrow> (NoResult, Some (ctx\<lparr>data :=
                 push_value (snd (grow_stats_buffer env (data ctx))) (sqlite3_value_double v)\<rparr>)))
      else (NoResult, Some (ctx\<lparr>data := push_value (data ctx) (sqlite3_value_double v)\<rparr>)))"
proof -
  from assms(1) obtain vs where vs: "values_f (data ctx) = Some vs" by auto
  have ty: "sqlite3_value_type v \<noteq> SQLITE_NULL"
    "\<not> (sqlite3_value_type v \<noteq> SQLITE_INTEGER \<and> sqlite3_value_type v \<noteq> SQLITE_FLOAT)"
    using assms(2) by (auto simp: numeric_def type_codes)
  show ?thesis
  proof (cases "malloc_result env")
    case None
    then show ?thesis using vs ty
      by (simp add: stats_step_def sqlite3_aggregate_context_def Let_def push_value_def
          grow_fail SQLITE_OK_def SQLITE_NOMEM_def)
  next
    case (Some g)
    then show ?thesis using vs ty
      by (simp add: stats_step_def sqlite3_aggregate_context_def Let_def push_value_def
          grow_ok)
  qed
qed

lemma step_null_initialised:
  assumes "values_f (data ctx) \<noteq> None"
  shows "stats_step env (Some ctx) [SqlNull] = (NoResult, Some ctx)"
proof -
  from assms obtain vs where "values_f (data ctx) = Some vs" by auto
  then show ?thesis by (simp add: stats_step_def sqlite3_aggregate_context_def)
qed

lemma step_nonnumeric_initialised:
  assumes "values_f (data ctx) \<noteq> None" "v \<noteq> SqlNull" "\<not> numeric v"
  shows "stats_step env (Some ctx) [v] = (ResultError invalid_msg, Some ctx)"
proof -
  from assms(1) obtain vs where "values_f (data ctx) = Some vs" by auto
  moreover have "sqlite3_value_type v \<noteq> SQLITE_NULL" using assms(2)
    by (cases v) (simp_all add: type_codes)
  ultimately show ?thesis using assms(3)
    by (simp add: stats_step_def sqlite3_aggregate_context_def numeric_def invalid_msg_def)
qed

lemma step_ctx_alloc_fail:
  "\<not> ctx_alloc_ok env \<Longrightarrow> stats_step env None [v] = (ResultErrorNomem, None)"
  by (simp add: stats_step_def sqlite3_aggregate_context_def)

lemma step_init_fail:
  assumes "agg = None \<longrightarrow> ctx_alloc_ok env" "\<not> initialised agg" "malloc_result env = None"
  shows "stats_step env agg [v] =
           (ResultErrorNomem, Some \<lparr>data = (agg_data agg)\<lparr>capacity := INITIAL_CAPACITY\<rparr>\<rparr>)"
  using assms
  by (cases agg)
     (simp_all add: stats_step_def sqlite3_aggregate_context_def
        init_fail sizeof_StatsWindowContext_def zeroed_context_def SQLITE_OK_def SQLITE_NOMEM_def)

lemma step_init_ok:
  assumes "agg = None \<longrightarrow> ctx_alloc_ok env" "\<not> initialised agg"
    "init_window_stats_data env (agg_data agg) = (SQLITE_OK, d1)"
  shows "stats_step env agg [v] = stats_step env (Some \<lparr>data = d1\<rparr>) [v]"
proof -
  from assms(3) obtain g where g: "malloc_result env = Some g"
    by (cases "malloc_result env") (auto simp: init_fail SQLITE_OK_def SQLITE_NOMEM_def)
  have "values_f d1 \<noteq> None" using assms(3) unfolding init_ok[OF g] by auto
  then obtain vs where v1: "values_f d1 = Some vs" by auto
  show ?thesis
  proof (cases agg)
    case None
    then show ?thesis using assms v1
      by (simp add: stats_step_def sqlite3_aggregate_context_def
          sizeof_StatsWindowContext_def zeroed_context_def Let_def split: prod.splits)
  next
    case (Some ctx)
    then show ?thesis using assms v1
      by (simp add: stats_step_def sqlite3_aggregate_context_def Let_def split: prod.splits)
  qed
qed

lemma init_wf:
  assumes "init_window_stats_data env d = (SQLITE_OK, d')"
  shows "buffer_wf d'" "buffer_contents d' = []" "sum_f d' = Fin 0" "sum_sq d' = Fin 0"
    "capacity d' = INITIAL_CAPACITY" "count d' = 0" "head d' = 0"
proof -
  from assms obtain g where g: "malloc_result env = Some g"
    by (cases "malloc_result env") (auto simp: init_fail SQLITE_OK_def SQLITE_NOMEM_def)
  have d': "d' = d\<lparr>capacity := INITIAL_CAPACITY, values_f := Some (map g [0..<100]),
        count := 0, head := 0, tail := 0, sum_f := Fin 0, sum_sq := Fin 0\<rparr>"
    using assms unfolding init_ok[OF g] by simp
  show "buffer_wf d'" "buffer_contents d' = []" "sum_f d' = Fin 0" "sum_sq d' = Fin 0"
    "capacity d' = INITIAL_CAPACITY" "count d' = 0" "head d' = 0"
    by (simp_all add: d' buffer_wf_def buffer_contents_def INITIAL_CAPACITY_def)
qed

lemma grow_fields:
  assumes "buffer_wf d" "malloc_result env = Some g"
  defines "d' \<equiv> snd (grow_stats_buffer env d)"
  shows "fst (grow_stats_buffer env d) = SQLITE_OK" "buffer_wf d'"
    "buffer_contents d' = buffer_contents d" "count d' = count d"
    "capacity d' = capacity d * 2" "head d' = 0" "tail d' = count d"
    "sum_f d' = sum_f d" "sum_sq d' = sum_sq d"
proof -
  have eq: "grow_stats_buffer env d = (SQLITE_OK, d')"
    unfolding d'_def grow_ok[OF assms(2)] by simp
  show "fst (grow_stats_buffer env d) = SQLITE_OK" by (simp add: eq)
  show "buffer_wf d'" using grow_wf[OF assms(1) eq] .
  show "buffer_contents d' = buffer_contents d" using grow_contents[OF assms(1) eq] .
  show "count d' = count d" "capacity d' = capacity d * 2" "head d' = 0" "tail d' = count d"
    "sum_f d' = sum_f d" "sum_sq d' = sum_sq d"
    unfolding d'_def grow_ok[OF assms(2)] by simp_all
qed

text \<open>What a step does to an initialised, well-formed buffer.\<close>

lemma step_effect_initialised:
  fixes env :: alloc_env and v :: sqlite_value
  assumes wf: "buffer_wf (data ctx)"
  defines "res \<equiv> stats_step env (Some ctx) [v]"
  defines "x \<equiv> sqlite3_value_double v"
  shows "(v = SqlNull \<and> res = (NoResult, Some ctx))
       \<or> (v \<noteq> SqlNull \<and> \<not> numeric v \<and> res = (ResultError invalid_msg, Some ctx))
       \<or> (numeric v \<and> capacity (data ctx) \<le> count (data ctx) \<and> malloc_result env = None \<and>
            res = (ResultErrorNomem, Some ctx))
       \<or> (numeric v \<and> \<not> (capacity (data ctx) \<le> count (data ctx) \<and> malloc_result env = None) \<and>
            fst res = NoResult \<and>
            (\<exists>ctx'. snd res = Some ctx' \<and> buffer_wf (data ctx') \<and>
               buffer_contents (data ctx') = buffer_contents (data ctx) @ [x] \<and>
               sum_f (data ctx') = dadd (sum_f (data ctx)) x \<and>
               sum_sq (data ctx') = dadd (sum_sq (data ctx)) (dmul x x) \<and>
               count (data ctx') = count (data ctx) + 1 \<and>
               capacity (data ctx') =
                 (if capacity (data ctx) \<le> count (data ctx) then capacity (data ctx) * 2
                  else capacity (data ctx)) \<and>
               head (data ctx') =
                 (if capacity (data ctx) \<le> count (data ctx) then 0 else head (data ctx))))"
proof -
  let ?d = "data ctx"
  from wf obtain vs where vs: "values_f ?d = Some vs" and c: "0 < capacity ?d"
    "count ?d \<le> capacity ?d"
    by (rule buffer_wfD)
  then have nn: "values_f ?d \<noteq> None" by simp
  consider (null) "v = SqlNull" | (other) "v \<noteq> SqlNull" "\<not> numeric v" | (num) "numeric v"
    by blast
  then show ?thesis
  proof cases
    case null
    then show ?thesis using step_null_initialised[OF nn, of env] by (simp add: res_def)
  next
    case other
    then show ?thesis using step_nonnumeric_initialised[OF nn other, of env]
      by (simp add: res_def)
  next
    case num
    note eq = step_numeric_eq[OF nn num, of env]
    show ?thesis
    proof (cases "count ?d < capacity ?d")
      case True
      then have r: "res = (NoResult, Some (ctx\<lparr>data := push_value ?d x\<rparr>))"
        using eq by (simp add: res_def x_def)
      show ?thesis using num True push_value_fields[OF wf True, of x]
        by (simp add: r)
    next
      case False
      show ?thesis
      proof (cases "malloc_result env")
        case None
        then show ?thesis using eq False num by (simp add: res_def)
      next
        case (Some g)
        let ?g = "snd (grow_stats_buffer env ?d)"
        note gf = grow_fields[OF wf Some]
        have lt: "count ?g < capacity ?g" using gf(4,5) c by simp
        have r: "res = (NoResult, Some (ctx\<lparr>data := push_value ?g x\<rparr>))"
          using eq False Some by (simp add: res_def x_def)
        show ?thesis using num False Some push_value_fields[OF gf(2) lt, of x] gf
          by (simp add: r)
      qed
    qed
  qed
qed

lemma same_stats_refl [simp]: "same_stats agg agg"
  by (simp add: same_stats_def)

lemma agg_wf_Some: "buffer_wf (data ctx) \<Longrightarrow> agg_wf (Some ctx) \<and> initialised (Some ctx)"
  by (auto simp: agg_wf_def elim: buffer_wfD)

lemma step_effect:
  fixes env :: alloc_env and v :: sqlite_value
  assumes wf: "agg_wf agg"
  defines "res \<equiv> stats_step env agg [v]"
  defines "x \<equiv> sqlite3_value_double v"
  shows "agg_wf (snd res) \<and>
     ((fst res = NoResult \<and> v = SqlNull \<and> initialised (snd res) \<and> same_stats agg (snd res))
    \<or> (fst res = ResultError invalid_msg \<and> v \<noteq> SqlNull \<and> \<not> numeric v \<and>
          initialised (snd res) \<and> same_stats agg (snd res))
    \<or> (fst res = ResultErrorNomem \<and> \<not> alloc_ok env \<and> same_stats agg (snd res) \<and>
          initialised (snd res) = initialised agg)
    \<or> (fst res = NoResult \<and> numeric v \<and> initialised (snd res) \<and>
          agg_contents (snd res) = agg_contents agg @ [x] \<and>
          count (agg_data (snd res)) = count (agg_data agg) + 1 \<and>
          sum_f (agg_data (snd res)) = dadd (sum_f (agg_data agg)) x \<and>
          sum_sq (agg_data (snd res)) = dadd (sum_sq (agg_data agg)) (dmul x x)))"
proof (cases "initialised agg")
  case True
  then obtain ctx where ctx: "agg = Some ctx" by (cases agg) auto
  have bw: "buffer_wf (data ctx)" using wf True by (simp add: agg_wf_def ctx)
  note w = agg_wf_Some[OF bw]
  from step_effect_initialised[OF bw, where env=env and v=v]
  show ?thesis
  proof (elim disjE conjE exE)
    fix ctx'
    assume a: "snd (stats_step env (Some ctx) [v]) = Some ctx'" "buffer_wf (data ctx')"
      and b: "numeric v" "fst (stats_step env (Some ctx) [v]) = NoResult"
      "buffer_contents (data ctx') = buffer_contents (data ctx) @ [sqlite3_value_double v]"
      "sum_f (data ctx') = dadd (sum_f (data ctx)) (sqlite3_value_double v)"
      "sum_sq (data ctx') = dadd (sum_sq (data ctx))
         (dmul (sqlite3_value_double v) (sqlite3_value_double v))"
      "count (data ctx') = count (data ctx) + 1"
    show ?thesis using agg_wf_Some[OF a(2)] a(1) b w
      by (simp add: res_def ctx x_def agg_contents_def)
  qed (use w in \<open>simp_all add: res_def ctx alloc_ok_def\<close>)
next
  case False
  then have u: "count (agg_data agg) = 0" "sum_f (agg_data agg) = Fin 0"
    "sum_sq (agg_data agg) = Fin 0" "agg_contents agg = []"
    using wf by (simp_all add: agg_wf_def agg_contents_def)
  have uv: "values_f (agg_data agg) = None" using False by (cases agg) simp_all
  show ?thesis
  proof (cases "agg = None \<and> \<not> ctx_alloc_ok env")
    case True
    then show ?thesis using step_ctx_alloc_fail[of env v] wf
      by (simp add: res_def alloc_ok_def)
  next
    case ca: False
    then have ca': "agg = None \<longrightarrow> ctx_alloc_ok env" by blast
    show ?thesis
    proof (cases "malloc_result env")
      case None
      then show ?thesis using step_init_fail[OF ca' False None, of v] u uv False
        by (simp add: res_def alloc_ok_def agg_wf_def same_stats_def agg_contents_def)
    next
      case (Some g)
      obtain d1 where d1: "init_window_stats_data env (agg_data agg) = (SQLITE_OK, d1)"
        using init_ok[OF Some] by simp
      note i = init_wf[OF d1]
      define ctx1 where "ctx1 = \<lparr>data = d1\<rparr>"
      have eq: "res = stats_step env (Some ctx1) [v]"
        using step_init_ok[OF ca' False d1, of v] by (simp add: res_def ctx1_def)
      have bw: "buffer_wf (data ctx1)" using i(1) by (simp add: ctx1_def)
      have f1: "buffer_contents (data ctx1) = []" "sum_f (data ctx1) = Fin 0"
        "sum_sq (data ctx1) = Fin 0" "count (data ctx1) = 0"
        "capacity (data ctx1) = 100"
        using i by (simp_all add: ctx1_def INITIAL_CAPACITY_def)
      note w = agg_wf_Some[OF bw]
      from step_effect_initialised[OF bw, where env=env and v=v]
      show ?thesis
      proof (elim disjE conjE exE)
        fix ctx'
        assume a: "snd (stats_step env (Some ctx1) [v]) = Some ctx'" "buffer_wf (data ctx')"
          and b: "numeric v" "fst (stats_step env (Some ctx1) [v]) = NoResult"
          "buffer_contents (data ctx') = buffer_contents (data ctx1) @ [sqlite3_value_double v]"
          "sum_f (data ctx') = dadd (sum_f (data ctx1)) (sqlite3_value_double v)"
          "sum_sq (data ctx') = dadd (sum_sq (data ctx1))
             (dmul (sqlite3_value_double v) (sqlite3_value_double v))"
          "count (data ctx') = count (data ctx1) + 1"
        show ?thesis using agg_wf_Some[OF a(2)] a(1) b f1 u
          by (simp add: eq x_def agg_contents_def)
      qed (use w f1 u bw in \<open>simp_all add: eq same_stats_def agg_contents_def\<close>)
    qed
  qed
qed

lemma step_unchanged_initialised:
  assumes "agg_wf agg" "initialised agg" "\<not> numeric v \<or> fst (stats_step env agg [v]) \<noteq> NoResult"
  shows "snd (stats_step env agg [v]) = agg"
proof -
  from assms(2) obtain ctx where ctx: "agg = Some ctx" by (cases agg) auto
  have bw: "buffer_wf (data ctx)" using assms(1,2) by (simp add: agg_wf_def ctx)
  show ?thesis using step_effect_initialised[OF bw, where env=env and v=v] assms(3)
    by (auto simp: ctx)
qed

lemma inverse_effect:
  fixes v :: sqlite_value
  assumes wf: "agg_wf agg"
  defines "res \<equiv> stats_inverse agg [v]"
  shows "fst res = NoResult \<and> agg_wf (snd res) \<and> initialised (snd res) = initialised agg \<and>
     (if v = SqlNull \<or> agg_contents agg = [] then snd res = agg
      else agg_contents (snd res) = tl (agg_contents agg) \<and>
           count (agg_data (snd res)) = count (agg_data agg) - 1 \<and>
           sum_f (agg_data (snd res)) =
             dsub (sum_f (agg_data agg)) (hd (agg_contents agg)) \<and>
           sum_sq (agg_data (snd res)) =
             dsub (sum_sq (agg_data agg))
               (dmul (hd (agg_contents agg)) (hd (agg_contents agg))))"
proof (cases "initialised agg")
  case False
  then have "res = (NoResult, agg)"
    by (cases agg)
       (auto simp: res_def stats_inverse_def sqlite3_aggregate_context_def)
  then show ?thesis using wf False by (simp add: agg_contents_def)
next
  case True
  then obtain ctx where ctx: "agg = Some ctx" by (cases agg) auto
  have bw: "buffer_wf (data ctx)" using wf True by (simp add: agg_wf_def ctx)
  from bw obtain vs where vs: "values_f (data ctx) = Some vs" and c: "0 \<le> count (data ctx)"
    by (rule buffer_wfD)
  have ac: "agg_contents agg = buffer_contents (data ctx)"
    using True by (simp add: agg_contents_def ctx)
  have emp: "(agg_contents agg = []) = (count (data ctx) \<le> 0)"
    using c unfolding ac by (simp add: buffer_contents_def)
  show ?thesis
  proof (cases "count (data ctx) \<le> 0 \<or> v = SqlNull")
    case True
    then have "res = (NoResult, agg)"
      using vs by (auto simp: res_def stats_inverse_def sqlite3_aggregate_context_def ctx)
    then show ?thesis using wf True emp by auto
  next
    case False
    then have pos: "0 < count (data ctx)" and nn: "sqlite3_value_type v \<noteq> SQLITE_NULL"
      by (cases v; simp add: type_codes)+
    let ?p = "remove_from_circular_buffer (data ctx)"
    define d' where "d' = (snd ?p)\<lparr>sum_f := dsub (sum_f (snd ?p)) (fst ?p)\<rparr>
        \<lparr>sum_sq := dsub (sum_sq ((snd ?p)\<lparr>sum_f := dsub (sum_f (snd ?p)) (fst ?p)\<rparr>))
             (dmul (fst ?p) (fst ?p))\<rparr>"
    define ctx' where "ctx' = ctx\<lparr>data := d'\<rparr>"
    have r: "res = (NoResult, Some ctx')"
      using vs pos nn
      by (simp add: res_def stats_inverse_def sqlite3_aggregate_context_def ctx Let_def
          ctx'_def d'_def split: prod.splits)
    have s: "sum_f (snd ?p) = sum_f (data ctx)" "sum_sq (snd ?p) = sum_sq (data ctx)"
      "count (snd ?p) = count (data ctx) - 1"
      using pos by (simp_all add: remove_from_circular_buffer_def)
    have f: "buffer_wf d'" "buffer_contents d' = tl (buffer_contents (data ctx))"
      "sum_f d' = dsub (sum_f (data ctx)) (hd (buffer_contents (data ctx)))"
      "sum_sq d' = dsub (sum_sq (data ctx))
         (dmul (hd (buffer_contents (data ctx))) (hd (buffer_contents (data ctx))))"
      "count d' = count (data ctx) - 1"
      using remove_wf[OF bw pos] remove_contents[OF bw pos] remove_value[OF bw pos] s
      by (simp_all add: d'_def)
    have w': "agg_wf (Some ctx') \<and> initialised (Some ctx')"
      using agg_wf_Some[of ctx'] f(1) by (simp add: ctx'_def)
    show ?thesis using False emp w' f True unfolding r ac
      by (simp add: agg_contents_def ctx'_def ctx)
  qed
qed

lemma run_append: "run (cs @ ds) agg = run ds (run cs agg)"
  by (induction cs agg rule: run.induct) simp_all

lemma run_wf: "agg_wf agg \<Longrightarrow> agg_wf (run cs agg)"
proof (induction cs agg rule: run.induct)
  case (2 env v cs agg)
  then show ?case using step_effect[OF "2.prems", where env=env and v=v] by simp
next
  case (3 v cs agg)
  then show ?case using inverse_effect[OF "3.prems", where v=v] by simp
qed simp

lemma agg_wf_None [simp]: "agg_wf None"
  by (simp add: agg_wf_def zeroed_data_def)

lemma arg_real_numeric:
  "arg_real v = Some r \<Longrightarrow> numeric v \<and> sqlite3_value_double v = Fin r"
  by (induction v rule: arg_real.induct) (simp_all add: numeric_def type_codes double_of_int_def)

lemma numeric_arg_real:
  assumes "numeric v" "arg_finite v"
  shows "\<exists>r. arg_real v = Some r"
proof (cases v)
  case (SqlFloat x)
  then show ?thesis using assms(2) by (cases x) simp_all
qed (use assms(1) in \<open>simp_all add: numeric_def type_codes\<close>)

lemma arg_real_None: "\<not> numeric v \<Longrightarrow> arg_real v = None"
  using arg_real_numeric by (cases "arg_real v") auto

lemma agg_inv_None [simp]: "agg_inv None [] "
  by (simp add: agg_inv_def agg_contents_def zeroed_data_def)

lemma agg_inv_same:
  "agg_inv agg rs \<Longrightarrow> agg_wf agg' \<Longrightarrow> same_stats agg agg' \<Longrightarrow> agg_inv agg' rs"
  by (simp add: agg_inv_def same_stats_def)

lemma step_inv:
  fixes env :: alloc_env and v :: sqlite_value
  assumes inv: "agg_inv agg rs" and fin: "arg_finite v"
  defines "res \<equiv> stats_step env agg [v]"
  shows "(fst res = NoResult \<longrightarrow> agg_inv (snd res) (fifo_call (Step env v) rs))
       \<and> (fst res \<noteq> NoResult \<longrightarrow> agg_inv (snd res) rs)
       \<and> (alloc_ok env \<longrightarrow> agg_inv (snd res) (fifo_call (Step env v) rs))"
proof -
  have wf: "agg_wf agg" using inv by (simp add: agg_inv_def)
  from step_effect[OF wf, where env=env and v=v]
  have wf': "agg_wf (snd res)" and
    cases: "(fst res = NoResult \<and> v = SqlNull \<and> same_stats agg (snd res))
    \<or> (fst res = ResultError invalid_msg \<and> \<not> numeric v \<and> same_stats agg (snd res))
    \<or> (fst res = ResultErrorNomem \<and> \<not> alloc_ok env \<and> same_stats agg (snd res))
    \<or> (fst res = NoResult \<and> numeric v \<and>
          agg_contents (snd res) = agg_contents agg @ [sqlite3_value_double v] \<and>
          count (agg_data (snd res)) = count (agg_data agg) + 1 \<and>
          sum_f (agg_data (snd res)) = dadd (sum_f (agg_data agg)) (sqlite3_value_double v) \<and>
          sum_sq (agg_data (snd res)) = dadd (sum_sq (agg_data agg))
             (dmul (sqlite3_value_double v) (sqlite3_value_double v)))"
    unfolding res_def by blast+
  from cases show ?thesis
  proof (elim disjE conjE)
    assume "fst res = NoResult" "v = SqlNull" "same_stats agg (snd res)"
    then show ?thesis using agg_inv_same[OF inv wf'] by simp
  next
    assume "fst res = ResultError invalid_msg" "\<not> numeric v" "same_stats agg (snd res)"
    then show ?thesis using agg_inv_same[OF inv wf'] arg_real_None[of v] by simp
  next
    assume "fst res = ResultErrorNomem" "\<not> alloc_ok env" "same_stats agg (snd res)"
    then show ?thesis using agg_inv_same[OF inv wf'] by simp
  next
    assume a: "fst res = NoResult" "numeric v"
      "agg_contents (snd res) = agg_contents agg @ [sqlite3_value_double v]"
      "count (agg_data (snd res)) = count (agg_data agg) + 1"
      "sum_f (agg_data (snd res)) = dadd (sum_f (agg_data agg)) (sqlite3_value_double v)"
      "sum_sq (agg_data (snd res)) = dadd (sum_sq (agg_data agg))
             (dmul (sqlite3_value_double v) (sqlite3_value_double v))"
    from numeric_arg_real[OF a(2) fin] obtain r where r: "arg_real v = Some r" by blast
    then have x: "sqlite3_value_double v = Fin r" using arg_real_numeric by blast
    have "agg_inv (snd res) (rs @ [r])"
      using inv wf' a(3-6) unfolding x by (simp add: agg_inv_def)
    then show ?thesis using a(1) r by simp
  qed
qed

lemma inverse_inv:
  fixes v :: sqlite_value
  assumes inv: "agg_inv agg rs"
  shows "agg_inv (snd (stats_inverse agg [v])) (fifo_call (Inverse v) rs)"
proof -
  have wf: "agg_wf agg" using inv by (simp add: agg_inv_def)
  note e = inverse_effect[OF wf, where v=v]
  show ?thesis
  proof (cases "v = SqlNull \<or> agg_contents agg = []")
    case True
    then have "snd (stats_inverse agg [v]) = agg" using e by simp
    moreover have "fifo_call (Inverse v) rs = rs" using True inv by (auto simp: agg_inv_def)
    ultimately show ?thesis using inv by simp
  next
    case False
    then obtain r rs' where rs: "rs = r # rs'" using inv by (cases rs) (auto simp: agg_inv_def)
    show ?thesis using e False inv
      by (simp add: agg_inv_def rs dsub_def)
  qed
qed

lemma run_inv:
  "agg_inv agg rs \<Longrightarrow> list_all call_finite cs \<Longrightarrow> \<exists>rs'. agg_inv (run cs agg) rs'"
proof (induction cs agg arbitrary: rs rule: run.induct)
  case (1 agg)
  then show ?case by auto
next
  case (2 env v cs agg)
  from step_inv[OF "2.prems"(1), of v env] "2.prems"(2)
  obtain rs1 where "agg_inv (snd (stats_step env agg [v])) rs1"
    by (cases "fst (stats_step env agg [v]) = NoResult") auto
  then show ?case using "2.IH" "2.prems"(2) by simp
next
  case (3 v cs agg)
  then show ?case using inverse_inv[OF "3.prems"(1), of v] by simp
qed

lemma run_fifo:
  "agg_inv agg rs \<Longrightarrow> list_all call_finite cs \<Longrightarrow> list_all call_alloc_ok cs \<Longrightarrow>
   agg_inv (run cs agg) (fifo_run cs rs)"
proof (induction cs agg arbitrary: rs rule: run.induct)
  case (1 agg)
  then show ?case by simp
next
  case (2 env v cs agg)
  from step_inv[OF "2.prems"(1), of v env] "2.prems"(2,3)
  have "agg_inv (snd (stats_step env agg [v])) (fifo_call (Step env v) rs)" by simp
  then show ?case using "2.IH" "2.prems"(2,3) by simp
next
  case (3 v cs agg)
  then show ?case using inverse_inv[OF "3.prems"(1), of v] by simp
qed

lemma sum_sq_dev:
  "(\<Sum>x\<leftarrow>rs. (x - m)\<^sup>2) = (\<Sum>x\<leftarrow>rs. x * x) - 2 * m * sum_list rs + real (length rs) * m\<^sup>2"
  by (induction rs) (simp_all add: power2_eq_square algebra_simps)

lemma variance_population_alt:
  assumes "rs \<noteq> []"
  shows "direct_variance_population rs =
           (\<Sum>x\<leftarrow>rs. x * x) / real (length rs) - (sum_list rs / real (length rs)) * (sum_list rs / real (length rs))"
proof -
  have n: "real (length rs) \<noteq> 0" using assms by simp
  show ?thesis
    unfolding direct_variance_population_def mean_def sum_sq_dev
    using n by (simp add: field_simps power2_eq_square)
qed

lemma variance_sample_alt:
  assumes "2 \<le> length rs"
  shows "direct_variance_sample rs =
           ((\<Sum>x\<leftarrow>rs. x * x) / real (length rs) - (sum_list rs / real (length rs)) * (sum_list rs / real (length rs)))
             * (real (length rs) / (real (length rs) - 1))"
proof -
  have n: "real (length rs) \<noteq> 0" "real (length rs) - 1 \<noteq> 0" using assms by auto
  show ?thesis
    unfolding direct_variance_sample_def mean_def sum_sq_dev
    using n by (simp add: field_simps power2_eq_square)
qed

lemma calculate_variance_population_inv:
  assumes "agg_inv agg rs" "rs \<noteq> []"
  shows "calculate_variance_population (agg_data agg) = Fin (direct_variance_population rs)"
  using assms variance_population_alt[OF assms(2)]
  by (simp add: agg_inv_def calculate_variance_population_def double_of_int_def dsub_def Let_def)

lemma calculate_variance_sample_inv:
  assumes "agg_inv agg rs" "2 \<le> length rs"
  shows "calculate_variance_sample (agg_data agg) = Fin (direct_variance_sample rs)"
proof -
  have "real (length rs) - 1 \<noteq> 0" "rs \<noteq> []" using assms(2) by auto
  then show ?thesis
  using assms variance_sample_alt[OF assms(2)]
  by (simp add: agg_inv_def calculate_variance_sample_def double_of_int_def dsub_def Let_def)
qed


section \<open>The running sums and the statistics\<close>

lemma value_helper_defined:
  assumes "initialised agg" "min_count \<le> count (agg_data agg)"
  shows "stats_value_helper agg func min_count = set_result (func (agg_data agg))"
    "fst (stats_final_helper agg func min_count) = set_result (func (agg_data agg))"
  using assms
  by (cases agg; auto simp: stats_value_helper_def stats_final_helper_def
        sqlite3_aggregate_context_def)+

lemma value_helper_null:
  assumes "\<not> initialised agg \<or> count (agg_data agg) < min_count"
  shows "stats_value_helper agg func min_count = ResultNull"
    "fst (stats_final_helper agg func min_count) = ResultNull"
  using assms
  by (cases agg; auto simp: stats_value_helper_def stats_final_helper_def
        sqlite3_aggregate_context_def)+

lemma agg_inv_initialised: "agg_inv agg rs \<Longrightarrow> rs \<noteq> [] \<Longrightarrow> initialised agg"
  by (auto simp: agg_inv_def agg_wf_def split: if_splits)

text \<open>
  C1. After every sequence of step and inverse calls on a fresh aggregate whose float
  arguments are finite, the buffered values are finite, \<open>sum\<close> is exactly their sum and
  \<open>sum_sq\<close> is exactly the sum of their squares. The sequence is arbitrary: its steps
  may carry nulls, non-numeric values and failing allocations.
\<close>

theorem running_sums_exact:
  assumes "list_all call_finite cs"
  shows "\<exists>rs. agg_contents (run cs None) = map Fin rs \<and>
              sum_f (agg_data (run cs None)) = Fin (sum_list rs) \<and>
              sum_sq (agg_data (run cs None)) = Fin (\<Sum>r\<leftarrow>rs. r * r)"
proof -
  from run_inv[OF agg_inv_None assms] obtain rs where "agg_inv (run cs None) rs" ..
  then show ?thesis unfolding agg_inv_def by blast
qed

theorem running_sums_exact_witness:
  "list_all call_finite demo_calls \<and>
   agg_contents (run demo_calls None) = [Fin (1/2), Fin 5] \<and>
   (\<exists>rs. agg_contents (run demo_calls None) = map Fin rs \<and>
         sum_f (agg_data (run demo_calls None)) = Fin (sum_list rs) \<and>
         sum_sq (agg_data (run demo_calls None)) = Fin (\<Sum>r\<leftarrow>rs. r * r))"
proof -
  have h: "list_all call_finite demo_calls" by (simp add: demo_calls_def)
  have c: "agg_contents (run demo_calls None) = [Fin (1/2), Fin 5]" by code_simp
  show ?thesis using h c running_sums_exact[OF h] by simp
qed

text \<open>
  C2. In every state that a sequence of step and inverse calls with finite arguments
  reaches from a fresh aggregate, with at least two buffered values, the sample variance
  the code computes as \<open>(sum_sq/n - mean\<^sup>2) * (n/(n-1))\<close>, and reports
  through the value and the final callback, is the textbook
  \<open>\<Sum>(x - mean)\<^sup>2 / (n - 1)\<close> of the buffered values.
\<close>

theorem sample_variance_direct:
  assumes "list_all call_finite cs" "2 \<le> count (agg_data (run cs None))"
  shows "\<exists>rs. agg_contents (run cs None) = map Fin rs \<and>
              int (length rs) = count (agg_data (run cs None)) \<and>
              calculate_variance_sample (agg_data (run cs None)) =
                Fin (direct_variance_sample rs) \<and>
              variance_samp_value (run cs None) = ResultDouble (Fin (direct_variance_sample rs)) \<and>
              fst (variance_samp_final (run cs None)) =
                ResultDouble (Fin (direct_variance_sample rs))"
proof -
  from run_inv[OF agg_inv_None assms(1)] obtain rs where inv: "agg_inv (run cs None) rs" ..
  then have len: "int (length rs) = count (agg_data (run cs None))"
    by (simp add: agg_inv_def)
  with assms(2) have l2: "2 \<le> length rs" by simp
  then have "rs \<noteq> []" by auto
  then have i: "initialised (run cs None)" using inv by (rule agg_inv_initialised[rotated])
  note v = calculate_variance_sample_inv[OF inv l2]
  show ?thesis
    using inv len v value_helper_defined[OF i assms(2), of calculate_variance_sample]
    by (intro exI[of _ rs])
       (simp add: agg_inv_def variance_samp_value_def variance_samp_final_def set_result_def)
qed

theorem sample_variance_direct_witness:
  "list_all call_finite demo_calls \<and> 2 \<le> count (agg_data (run demo_calls None)) \<and>
   (\<exists>rs. agg_contents (run demo_calls None) = map Fin rs \<and>
         int (length rs) = count (agg_data (run demo_calls None)) \<and>
         calculate_variance_sample (agg_data (run demo_calls None)) =
           Fin (direct_variance_sample rs) \<and>
         variance_samp_value (run demo_calls None) =
           ResultDouble (Fin (direct_variance_sample rs)) \<and>
         fst (variance_samp_final (run demo_calls None)) =
           ResultDouble (Fin (direct_variance_sample rs)))"
proof -
  have h: "list_all call_finite demo_calls" by (simp add: demo_calls_def)
  have c: "2 \<le> count (agg_data (run demo_calls None))" by code_simp
  show ?thesis using h c sample_variance_direct[OF h c] by simp
qed

lemma run_queue:
  "agg_wf agg \<Longrightarrow> list_all call_alloc_ok cs \<Longrightarrow>
   agg_contents (run cs agg) = queue_run cs (agg_contents agg)"
proof (induction cs agg rule: run.induct)
  case (1 agg)
  then show ?case by simp
next
  case (2 env v cs agg)
  let ?a = "snd (stats_step env agg [v])"
  note e = step_effect[OF "2.prems"(1), where env=env and v=v]
  have ok: "alloc_ok env" using "2.prems"(2) by simp
  have wf': "agg_wf ?a" using e by simp
  have c: "agg_contents ?a = queue_call (Step env v) (agg_contents agg)"
    using e ok by (auto simp: same_stats_def numeric_def type_codes)
  show ?case using "2.IH"[OF wf'] "2.prems"(2) c by simp
next
  case (3 v cs agg)
  let ?a = "snd (stats_inverse agg [v])"
  note e = inverse_effect[OF "3.prems"(1), where v=v]
  have wf': "agg_wf ?a" using e by simp
  have c: "agg_contents ?a = queue_call (Inverse v) (agg_contents agg)"
    using e by (auto split: if_splits)
  show ?case using "3.IH"[OF wf'] "3.prems"(2) c by simp
qed

lemma agg_wf_count:
  "agg_wf agg \<Longrightarrow> count (agg_data agg) = int (length (agg_contents agg))"
  by (auto simp: agg_wf_def agg_contents_def elim!: buffer_wfD)

lemma direct_variance_population_pair: "direct_variance_population [1, 2] = 1 / 4"
  by (simp add: direct_variance_population_def mean_def power2_eq_square)

lemma inf_window_contents: "agg_contents (run inf_window None) = [Fin 1, Fin 2]"
  by code_simp

lemma inf_window_count: "count (agg_data (run inf_window None)) = 2"
  by code_simp

lemma inf_window_sums:
  "sum_f (agg_data (run inf_window None)) = NaN"
  "sum_sq (agg_data (run inf_window None)) = NaN"
  by code_simp+

lemma inf_window_variance: "variance_pop_value (run inf_window None) = ResultNull"
  by code_simp

text \<open>
  C3, as stated, fails. Insert the float \<open>+Infinity\<close>, then 1, then 2, and evict the
  oldest value. The two values left are 1 and 2, in this order, and the direct
  computation over them is 1/4. The running sums are not recomputed from the buffer:
  \<open>sum\<close> and \<open>sum_sq\<close> are \<open>Inf - Inf\<close>, which is NaN, and the population variance
  query reports null.
\<close>

theorem fifo_variance_counterexample:
  "agg_contents (run inf_window None) = [Fin 1, Fin 2] \<and>
   count (agg_data (run inf_window None)) = 2 \<and>
   sum_f (agg_data (run inf_window None)) = NaN \<and>
   sum_sq (agg_data (run inf_window None)) = NaN \<and>
   direct_variance_population [1, 2] = 1 / 4 \<and>
   variance_pop_value (run inf_window None) = ResultNull \<and>
   variance_pop_value (run inf_window None) \<noteq>
     ResultDouble (Fin (direct_variance_population [1, 2]))"
  using inf_window_contents inf_window_count inf_window_sums inf_window_variance
    direct_variance_population_pair
  by simp

text \<open>
  The same happens without an infinite value, through rounding, which the exact
  arithmetic of the model does not show: after the steps \<open>1e8\<close> and 1, the eviction of
  \<open>1e8\<close> and the step 2, binary64 arithmetic has \<open>sum = 3\<close> and \<open>sum_sq = 4\<close>. On that
  state the buffered values are 1 and 2 and the query reports \<open>-1/4\<close>.
\<close>

lemma absorbed_agg_contents: "agg_contents absorbed_agg = [Fin 1, Fin 2]"
  by code_simp

lemma absorbed_agg_variance: "variance_pop_value absorbed_agg = ResultDouble (Fin (- 1 / 4))"
  by code_simp

text \<open>
  C3, amended. Eviction is strictly first in, first out, for every interleaving of step
  and inverse calls on a fresh aggregate in which no allocation fails, whatever the values
  and whatever the positions of \<open>head\<close> and \<open>tail\<close> in the array: the buffer read from
  the oldest to the newest value is the queue of the specification, and \<open>count\<close> is its
  length. When moreover every argument is finite, then in exact arithmetic the population
  variance reported with at least one value left is the direct computation over that queue.
\<close>

theorem fifo_window:
  "(list_all call_alloc_ok cs \<longrightarrow>
      agg_contents (run cs None) = queue_run cs [] \<and>
      count (agg_data (run cs None)) = int (length (queue_run cs []))) \<and>
   (list_all call_alloc_ok cs \<and> list_all call_finite cs \<longrightarrow>
      agg_contents (run cs None) = map Fin (fifo_run cs []) \<and>
      (fifo_run cs [] \<noteq> [] \<longrightarrow>
         variance_pop_value (run cs None) =
           ResultDouble (Fin (direct_variance_population (fifo_run cs [])))))"
proof (intro conjI impI)
  assume ok: "list_all call_alloc_ok cs"
  have wf: "agg_wf (run cs None)" by (rule run_wf) simp
  show q: "agg_contents (run cs None) = queue_run cs []"
    using run_queue[OF agg_wf_None ok] by (simp add: agg_contents_def)
  show "count (agg_data (run cs None)) = int (length (queue_run cs []))"
    using agg_wf_count[OF wf] q by simp
next
  assume a: "list_all call_alloc_ok cs \<and> list_all call_finite cs"
  let ?q = "fifo_run cs []"
  have inv: "agg_inv (run cs None) ?q" using run_fifo[OF agg_inv_None] a by blast
  then show "agg_contents (run cs None) = map Fin ?q" by (simp add: agg_inv_def)
  assume ne: "?q \<noteq> []"
  have i: "initialised (run cs None)" using inv ne by (rule agg_inv_initialised)
  have c: "1 \<le> count (agg_data (run cs None))"
    using inv ne by (cases ?q) (simp_all add: agg_inv_def)
  show "variance_pop_value (run cs None) = ResultDouble (Fin (direct_variance_population ?q))"
    using value_helper_defined(1)[OF i c, of calculate_variance_population]
      calculate_variance_population_inv[OF inv ne]
    by (simp add: variance_pop_value_def set_result_def)
qed

lemma wrap_calls_state:
  "map_option (\<lambda>c. (head (data c), tail (data c))) (run wrap_calls None) = Some (3, 2)"
  by code_simp

lemma wrap_calls_queue: "fifo_run wrap_calls [] = map real_of_int [4..102]"
  by code_simp

lemma inf_window_queue: "queue_run inf_window [] = [Fin 1, Fin 2]"
  by code_simp

theorem fifo_window_witness:
  "list_all call_alloc_ok inf_window \<and>
   queue_run inf_window [] = [Fin 1, Fin 2] \<and>
   agg_contents (run inf_window None) = queue_run inf_window [] \<and>
   count (agg_data (run inf_window None)) = int (length (queue_run inf_window [])) \<and>
   list_all call_alloc_ok wrap_calls \<and> list_all call_finite wrap_calls \<and>
   map_option (\<lambda>c. (head (data c), tail (data c))) (run wrap_calls None) = Some (3, 2) \<and>
   fifo_run wrap_calls [] = map real_of_int [4..102] \<and>
   agg_contents (run wrap_calls None) = map Fin (fifo_run wrap_calls []) \<and>
   variance_pop_value (run wrap_calls None) =
     ResultDouble (Fin (direct_variance_population (fifo_run wrap_calls [])))"
proof -
  have h0: "list_all call_alloc_ok inf_window"
    by (simp add: inf_window_def alloc_ok_def env_ok_def)
  have h1: "list_all call_finite wrap_calls" by (simp add: wrap_calls_def list_all_iff)
  have h2: "list_all call_alloc_ok wrap_calls"
    by (simp add: wrap_calls_def list_all_iff alloc_ok_def env_ok_def)
  have ne: "fifo_run wrap_calls [] \<noteq> []" by (simp add: wrap_calls_queue upto.simps)
  from fifo_window[of inf_window, THEN conjunct1] h0
  have a: "agg_contents (run inf_window None) = queue_run inf_window []"
    "count (agg_data (run inf_window None)) = int (length (queue_run inf_window []))"
    by blast+
  from fifo_window[of wrap_calls, THEN conjunct2] h1 h2 ne
  have b: "agg_contents (run wrap_calls None) = map Fin (fifo_run wrap_calls [])"
    "variance_pop_value (run wrap_calls None) =
       ResultDouble (Fin (direct_variance_population (fifo_run wrap_calls [])))"
    by blast+
  show ?thesis
    using h0 h1 h2 a b inf_window_queue wrap_calls_queue wrap_calls_state by blast
qed


section \<open>Undefined results and sanitization\<close>

lemma direct_variance_population_single [simp]: "direct_variance_population [r] = 0"
  by (simp add: direct_variance_population_def mean_def)

lemma one_inf_contents: "agg_contents (run one_inf None) = [PInf]"
  by code_simp

lemma one_inf_count: "count (agg_data (run one_inf None)) = 1"
  by code_simp

lemma one_inf_variance: "variance_pop_value (run one_inf None) = ResultNull"
  by code_simp

lemma inf_then_one_contents: "agg_contents (run inf_then_one None) = [Fin 1]"
  by code_simp

lemma inf_then_one_count: "count (agg_data (run inf_then_one None)) = 1"
  by code_simp

lemma inf_then_one_variance: "variance_pop_value (run inf_then_one None) = ResultNull"
  by code_simp

text \<open>
  C4, as stated, fails in its last part. With the float \<open>+Infinity\<close> as the one buffered
  value, \<open>sum_sq/1 - mean\<^sup>2\<close> is \<open>Inf - Inf\<close>, which is NaN, and the population variance
  is reported as null, not as 0. The same holds when the one buffered value is the finite
  number 1, left after an infinite value was evicted: both sums are NaN.
\<close>

theorem single_value_counterexample:
  "agg_contents (run one_inf None) = [PInf] \<and>
   count (agg_data (run one_inf None)) = 1 \<and>
   variance_pop_value (run one_inf None) = ResultNull \<and>
   variance_pop_value (run one_inf None) \<noteq> ResultDouble (Fin 0) \<and>
   agg_contents (run inf_then_one None) = [Fin 1] \<and>
   count (agg_data (run inf_then_one None)) = 1 \<and>
   variance_pop_value (run inf_then_one None) = ResultNull \<and>
   variance_pop_value (run inf_then_one None) \<noteq> ResultDouble (Fin 0)"
  using one_inf_contents one_inf_count one_inf_variance
    inf_then_one_contents inf_then_one_count inf_then_one_variance
  by simp

text \<open>
  Rounding and overflow, which the exact arithmetic of the model does not show, have the
  same effect on finite values: after the steps \<open>1e8\<close> and 1 and the eviction of \<open>1e8\<close>,
  binary64 arithmetic has \<open>sum = 1\<close> and \<open>sum_sq = 0\<close>. On that state the one buffered
  value is 1 and the query reports \<open>-1\<close>.
\<close>

lemma absorbed_one_agg_contents: "agg_contents absorbed_one_agg = [Fin 1]"
  by code_simp

lemma absorbed_one_agg_variance:
  "variance_pop_value absorbed_one_agg = ResultDouble (Fin (- 1))"
  by code_simp

text \<open>
  C4, amended. The sample variance and standard deviation are reported as null while
  fewer than two values are buffered, the population variance and standard deviation
  while none is, by the value and by the final callback, in every context. With exactly
  one value buffered after step and inverse calls whose arguments are all finite, the
  population variance is, in exact arithmetic, reported as the number 0.
\<close>

theorem undefined_boundaries:
  "(\<not> initialised agg \<or> count (agg_data agg) < 2 \<longrightarrow>
       variance_samp_value agg = ResultNull \<and> stddev_samp_value agg = ResultNull \<and>
       fst (variance_samp_final agg) = ResultNull \<and> fst (stddev_samp_final agg) = ResultNull) \<and>
   (\<not> initialised agg \<or> count (agg_data agg) < 1 \<longrightarrow>
       variance_pop_value agg = ResultNull \<and> stddev_pop_value agg = ResultNull \<and>
       fst (variance_pop_final agg) = ResultNull \<and> fst (stddev_pop_final agg) = ResultNull) \<and>
   (list_all call_finite cs \<and> count (agg_data (run cs None)) = 1 \<longrightarrow>
       variance_pop_value (run cs None) = ResultDouble (Fin 0) \<and>
       fst (variance_pop_final (run cs None)) = ResultDouble (Fin 0))"
proof (intro conjI impI)
  assume a: "list_all call_finite cs \<and> count (agg_data (run cs None)) = 1"
  from run_inv[OF agg_inv_None] a obtain rs where inv: "agg_inv (run cs None) rs" by blast
  then have "length rs = 1" using a by (simp add: agg_inv_def)
  then obtain r where rs: "rs = [r]" by (cases rs) auto
  have i: "initialised (run cs None)" using agg_inv_initialised[OF inv] rs by simp
  have c: "1 \<le> count (agg_data (run cs None))" using a by simp
  have v: "calculate_variance_population (agg_data (run cs None)) = Fin 0"
    using calculate_variance_population_inv[OF inv] rs by simp
  show "variance_pop_value (run cs None) = ResultDouble (Fin 0)"
    "fst (variance_pop_final (run cs None)) = ResultDouble (Fin 0)"
    using value_helper_defined[OF i c, of calculate_variance_population] v
    by (simp_all add: variance_pop_value_def variance_pop_final_def set_result_def)
qed (simp_all add: value_helper_null variance_samp_value_def stddev_samp_value_def
      variance_samp_final_def stddev_samp_final_def variance_pop_value_def stddev_pop_value_def
      variance_pop_final_def stddev_pop_final_def)

lemma one_call_count: "count (agg_data (run one_call None)) = 1"
  by code_simp

theorem undefined_boundaries_witness:
  "count (agg_data (run one_call None)) < 2 \<and>
   variance_samp_value (run one_call None) = ResultNull \<and>
   stddev_samp_value (run one_call None) = ResultNull \<and>
   fst (variance_samp_final (run one_call None)) = ResultNull \<and>
   fst (stddev_samp_final (run one_call None)) = ResultNull \<and>
   \<not> initialised None \<and>
   variance_pop_value None = ResultNull \<and> stddev_pop_value None = ResultNull \<and>
   fst (variance_pop_final None) = ResultNull \<and> fst (stddev_pop_final None) = ResultNull \<and>
   list_all call_finite one_call \<and> count (agg_data (run one_call None)) = 1 \<and>
   variance_pop_value (run one_call None) = ResultDouble (Fin 0) \<and>
   fst (variance_pop_final (run one_call None)) = ResultDouble (Fin 0)"
proof -
  have h: "list_all call_finite one_call" by (simp add: one_call_def)
  show ?thesis
    using h one_call_count undefined_boundaries[of "run one_call None" one_call]
      undefined_boundaries[of None one_call]
    by simp
qed

lemma set_result_cases:
  "set_result x = (if isfinite x then ResultDouble x else ResultNull)"
  by (cases x) (simp_all add: set_result_def)

lemma helper_sanitized:
  assumes "\<And>d. count d < m \<Longrightarrow> f d = NaN"
  shows "sanitized (\<lambda>agg. stats_value_helper agg f m) f agg"
    "sanitized (\<lambda>agg. fst (stats_final_helper agg f m)) f agg"
proof -
  have "sanitized (\<lambda>agg. stats_value_helper agg f m) f agg \<and>
        sanitized (\<lambda>agg. fst (stats_final_helper agg f m)) f agg"
  proof (cases "initialised agg \<and> m \<le> count (agg_data agg)")
    case True
    then show ?thesis
      using value_helper_defined[of agg m f]
      by (cases "f (agg_data agg)") (simp_all add: sanitized_def set_result_cases)
  next
    case False
    have "\<not> isfinite (f (agg_data agg))" if "initialised agg"
      using that False assms[of "agg_data agg"] by simp
    then show ?thesis
      using value_helper_null[of agg m f] False
      by (auto simp: sanitized_def)
  qed
  then show "sanitized (\<lambda>agg. stats_value_helper agg f m) f agg"
    "sanitized (\<lambda>agg. fst (stats_final_helper agg f m)) f agg" by simp_all
qed

lemma calculate_nan_below:
  "count d < 2 \<Longrightarrow> calculate_variance_sample d = NaN"
  "count d < 2 \<Longrightarrow> calculate_stddev_sample d = NaN"
  "count d < 1 \<Longrightarrow> calculate_variance_population d = NaN"
  "count d < 1 \<Longrightarrow> calculate_stddev_population d = NaN"
  by (simp_all add: calculate_variance_sample_def calculate_stddev_sample_def
      calculate_variance_population_def calculate_stddev_population_def)

text \<open>
  C5. For each of the four statistics, through the value and through the final callback:
  a computed NaN or infinity is reported as null; a reported number is finite and is the
  computed statistic; and on an initialised context a finite computed statistic is
  reported as that number.
\<close>

theorem result_sanitized:
  "\<forall>(q, f) \<in> set queries. sanitized q f agg"
proof -
  have eqs:
    "stddev_samp_value = (\<lambda>agg. stats_value_helper agg calculate_stddev_sample 2)"
    "stddev_pop_value = (\<lambda>agg. stats_value_helper agg calculate_stddev_population 1)"
    "variance_samp_value = (\<lambda>agg. stats_value_helper agg calculate_variance_sample 2)"
    "variance_pop_value = (\<lambda>agg. stats_value_helper agg calculate_variance_population 1)"
    "stddev_samp_final = (\<lambda>agg. stats_final_helper agg calculate_stddev_sample 2)"
    "stddev_pop_final = (\<lambda>agg. stats_final_helper agg calculate_stddev_population 1)"
    "variance_samp_final = (\<lambda>agg. stats_final_helper agg calculate_variance_sample 2)"
    "variance_pop_final = (\<lambda>agg. stats_final_helper agg calculate_variance_population 1)"
    by (rule ext, simp add: stddev_samp_value_def stddev_pop_value_def
      variance_samp_value_def variance_pop_value_def stddev_samp_final_def stddev_pop_final_def
      variance_samp_final_def variance_pop_final_def)+
  show ?thesis
    unfolding queries_def eqs
    using helper_sanitized[of 2 calculate_stddev_sample agg]
      helper_sanitized[of 1 calculate_stddev_population agg]
      helper_sanitized[of 2 calculate_variance_sample agg]
      helper_sanitized[of 1 calculate_variance_population agg]
    by (simp add: calculate_nan_below)
qed

lemma inf_calls_nan:
  "calculate_variance_population (agg_data (run inf_calls None)) = NaN"
  by code_simp

lemma demo_calls_initialised: "initialised (run demo_calls None)"
  by code_simp

lemma demo_calls_variance:
  "calculate_variance_population (agg_data (run demo_calls None)) = Fin (81/16)"
  by code_simp

theorem result_sanitized_witness:
  "(variance_pop_value, calculate_variance_population) \<in> set queries \<and>
   isnan (calculate_variance_population (agg_data (run inf_calls None))) \<and>
   variance_pop_value (run inf_calls None) = ResultNull \<and>
   initialised (run demo_calls None) \<and>
   isfinite (calculate_variance_population (agg_data (run demo_calls None))) \<and>
   variance_pop_value (run demo_calls None) = ResultDouble (Fin (81/16))"
proof -
  have m: "(variance_pop_value, calculate_variance_population) \<in> set queries"
    by (simp add: queries_def)
  have a: "sanitized variance_pop_value calculate_variance_population (run inf_calls None)"
    using result_sanitized[of "run inf_calls None"] m by blast
  have b: "sanitized variance_pop_value calculate_variance_population (run demo_calls None)"
    using result_sanitized[of "run demo_calls None"] m by blast
  have n: "isnan (calculate_variance_population (agg_data (run inf_calls None)))"
    by (simp only: inf_calls_nan isnan.simps)
  have f: "isfinite (calculate_variance_population (agg_data (run demo_calls None)))"
    by (simp only: demo_calls_variance isfinite.simps)
  have r1: "variance_pop_value (run inf_calls None) = ResultNull"
    using a[unfolded sanitized_def, THEN conjunct1] n by blast
  have "variance_pop_value (run demo_calls None) =
          ResultDouble (calculate_variance_population (agg_data (run demo_calls None)))"
    using b[unfolded sanitized_def, THEN conjunct2, THEN conjunct2] f demo_calls_initialised
    by blast
  then have r2: "variance_pop_value (run demo_calls None) = ResultDouble (Fin (81/16))"
    by (simp only: demo_calls_variance)
  show ?thesis using m n f r1 r2 demo_calls_initialised by blast
qed

lemma rounded_state_variance:
  "calculate_variance_population rounded_state = Fin (- 1 / 10^17)"
  by (simp add: calculate_variance_population_def rounded_state_def double_of_int_def
      dsub_def Let_def)

lemma rounded_state_contents:
  "buffer_contents rounded_state = [Fin (1/10), Fin (1/10), Fin (1/10)]"
  by code_simp

text \<open>
  C6, as stated, fails. Take three buffered values 0.1 whose running sums carry a rounding
  error: \<open>sum_sq/n\<close> lies \<open>1e-17\<close> below \<open>mean\<^sup>2\<close>. The population variance
  computed is \<open>-1e-17\<close>, a finite number, and the value and final callbacks report
  that negative number, not null.
\<close>

theorem negative_variance_counterexample:
  "buffer_contents rounded_state = [Fin (1/10), Fin (1/10), Fin (1/10)] \<and>
   calculate_variance_population rounded_state = Fin (- 1 / 10^17) \<and>
   variance_pop_value rounded_agg = ResultDouble (Fin (- 1 / 10^17)) \<and>
   fst (variance_pop_final rounded_agg) = ResultDouble (Fin (- 1 / 10^17)) \<and>
   variance_pop_value rounded_agg \<noteq> ResultNull"
proof -
  have i: "initialised rounded_agg" by (simp add: rounded_agg_def rounded_state_def)
  have c: "1 \<le> count (agg_data rounded_agg)" by (simp add: rounded_agg_def rounded_state_def)
  have d: "agg_data rounded_agg = rounded_state" by (simp add: rounded_agg_def)
  show ?thesis
    using value_helper_defined[OF i c, of calculate_variance_population]
      rounded_state_variance rounded_state_contents
    by (simp add: d variance_pop_value_def variance_pop_final_def set_result_def)
qed

text \<open>
  C6, amended. Sanitization covers NaN and the infinities only. Whenever the variance
  computed on an initialised context is a negative real, the variance callbacks report
  that negative number; the standard deviation callbacks report null, because the
  square root of a negative number is NaN.
\<close>

theorem negative_variance_reported:
  "(initialised agg \<and> calculate_variance_population (agg_data agg) = Fin r \<and> r < 0 \<longrightarrow>
      variance_pop_value agg = ResultDouble (Fin r) \<and>
      fst (variance_pop_final agg) = ResultDouble (Fin r) \<and>
      stddev_pop_value agg = ResultNull \<and> fst (stddev_pop_final agg) = ResultNull) \<and>
   (initialised agg \<and> calculate_variance_sample (agg_data agg) = Fin r \<and> r < 0 \<longrightarrow>
      variance_samp_value agg = ResultDouble (Fin r) \<and>
      fst (variance_samp_final agg) = ResultDouble (Fin r) \<and>
      stddev_samp_value agg = ResultNull \<and> fst (stddev_samp_final agg) = ResultNull)"
proof (intro conjI impI)
  assume a: "initialised agg \<and> calculate_variance_population (agg_data agg) = Fin r \<and> r < 0"
  then have c: "1 \<le> count (agg_data agg)"
    using calculate_nan_below(3)[of "agg_data agg"] by (cases "count (agg_data agg) < 1") auto
  have s: "calculate_stddev_population (agg_data agg) = NaN"
    using a by (simp add: calculate_stddev_population_def)
  from a have i: "initialised agg" by simp
  show "variance_pop_value agg = ResultDouble (Fin r)"
    "fst (variance_pop_final agg) = ResultDouble (Fin r)"
    "stddev_pop_value agg = ResultNull" "fst (stddev_pop_final agg) = ResultNull"
    using a s value_helper_defined[OF i c, of calculate_variance_population]
      value_helper_defined[OF i c, of calculate_stddev_population]
    by (simp_all add: variance_pop_value_def variance_pop_final_def stddev_pop_value_def
        stddev_pop_final_def set_result_def)
next
  assume a: "initialised agg \<and> calculate_variance_sample (agg_data agg) = Fin r \<and> r < 0"
  then have c: "2 \<le> count (agg_data agg)"
    using calculate_nan_below(1)[of "agg_data agg"] by (cases "count (agg_data agg) < 2") auto
  have s: "calculate_stddev_sample (agg_data agg) = NaN"
    using a by (simp add: calculate_stddev_sample_def)
  from a have i: "initialised agg" by simp
  show "variance_samp_value agg = ResultDouble (Fin r)"
    "fst (variance_samp_final agg) = ResultDouble (Fin r)"
    "stddev_samp_value agg = ResultNull" "fst (stddev_samp_final agg) = ResultNull"
    using a s value_helper_defined[OF i c, of calculate_variance_sample]
      value_helper_defined[OF i c, of calculate_stddev_sample]
    by (simp_all add: variance_samp_value_def variance_samp_final_def stddev_samp_value_def
        stddev_samp_final_def set_result_def)
qed

lemma rounded_state_variance_sample:
  "calculate_variance_sample rounded_state = Fin (- 3 / (2 * 10^17))"
  by (simp add: calculate_variance_sample_def rounded_state_def double_of_int_def
      dsub_def Let_def)

theorem negative_variance_reported_witness:
  "initialised rounded_agg \<and>
   calculate_variance_population (agg_data rounded_agg) = Fin (- 1 / 10^17) \<and>
   (- 1 / 10^17 :: real) < 0 \<and>
   variance_pop_value rounded_agg = ResultDouble (Fin (- 1 / 10^17)) \<and>
   stddev_pop_value rounded_agg = ResultNull \<and>
   calculate_variance_sample (agg_data rounded_agg) = Fin (- 3 / (2 * 10^17)) \<and>
   (- 3 / (2 * 10^17) :: real) < 0 \<and>
   variance_samp_value rounded_agg = ResultDouble (Fin (- 3 / (2 * 10^17))) \<and>
   stddev_samp_value rounded_agg = ResultNull"
proof -
  have i: "initialised rounded_agg" by (simp add: rounded_agg_def rounded_state_def)
  have d: "agg_data rounded_agg = rounded_state" by (simp add: rounded_agg_def)
  have p: "calculate_variance_population (agg_data rounded_agg) = Fin (- 1 / 10^17)"
    by (simp only: d rounded_state_variance)
  have q: "calculate_variance_sample (agg_data rounded_agg) = Fin (- 3 / (2 * 10^17))"
    by (simp only: d rounded_state_variance_sample)
  have n1: "(- 1 / 10^17 :: real) < 0" by simp
  have n2: "(- 3 / (2 * 10^17) :: real) < 0" by simp
  from negative_variance_reported[of rounded_agg "- 1 / 10^17", THEN conjunct1] i p n1
  have r1: "variance_pop_value rounded_agg = ResultDouble (Fin (- 1 / 10^17))"
    "stddev_pop_value rounded_agg = ResultNull" by blast+
  from negative_variance_reported[of rounded_agg "- 3 / (2 * 10^17)", THEN conjunct2] i q n2
  have r2: "variance_samp_value rounded_agg = ResultDouble (Fin (- 3 / (2 * 10^17)))"
    "stddev_samp_value rounded_agg = ResultNull" by blast+
  show ?thesis using i p q n1 n2 r1 r2 by blast
qed


section \<open>Buffer growth\<close>

lemma numeric_simps [simp]:
  "numeric (SqlInteger i)" "numeric (SqlFloat x)"
  "\<not> numeric (SqlText s)" "\<not> numeric (SqlBlob b)" "\<not> numeric SqlNull"
  by (simp_all add: numeric_def type_codes)

lemma first_step:
  assumes "alloc_ok env" "numeric v"
  shows "\<exists>ctx'. stats_step env None [v] = (NoResult, Some ctx') \<and> buffer_wf (data ctx') \<and>
           capacity (data ctx') = 100 \<and> head (data ctx') = 0 \<and> count (data ctx') = 1 \<and>
           buffer_contents (data ctx') = [sqlite3_value_double v]"
proof -
  from assms(1) obtain g where g: "malloc_result env = Some g" and ca: "ctx_alloc_ok env"
    by (auto simp: alloc_ok_def)
  obtain d1 where d1: "init_window_stats_data env (agg_data None) = (SQLITE_OK, d1)"
    using init_ok[OF g] by simp
  note i = init_wf[OF d1]
  define ctx1 where "ctx1 = \<lparr>data = d1\<rparr>"
  have eq: "stats_step env None [v] = stats_step env (Some ctx1) [v]"
    using step_init_ok[of None env d1 v] ca d1 by (simp add: ctx1_def)
  have bw: "buffer_wf (data ctx1)" using i(1) by (simp add: ctx1_def)
  have f1: "buffer_contents (data ctx1) = []" "count (data ctx1) = 0"
    "capacity (data ctx1) = 100" "head (data ctx1) = 0"
    using i by (simp_all add: ctx1_def INITIAL_CAPACITY_def)
  show ?thesis
    using step_effect_initialised[OF bw, where env=env and v=v] assms(2) f1
    unfolding eq by (cases "stats_step env (Some ctx1) [v]") auto
qed

lemma next_step:
  assumes "buffer_wf (data ctx)" "numeric v" "count (data ctx) < capacity (data ctx)"
  shows "\<exists>ctx'. stats_step env (Some ctx) [v] = (NoResult, Some ctx') \<and> buffer_wf (data ctx') \<and>
           capacity (data ctx') = capacity (data ctx) \<and> head (data ctx') = head (data ctx) \<and>
           count (data ctx') = count (data ctx) + 1 \<and>
           buffer_contents (data ctx') = buffer_contents (data ctx) @ [sqlite3_value_double v]"
  using step_effect_initialised[OF assms(1), where env=env and v=v] assms(2,3)
  by (cases "stats_step env (Some ctx) [v]") auto

lemma growing_step:
  assumes "buffer_wf (data ctx)" "numeric v" "count (data ctx) = capacity (data ctx)"
    "malloc_result env \<noteq> None"
  shows "\<exists>ctx'. stats_step env (Some ctx) [v] = (NoResult, Some ctx') \<and> buffer_wf (data ctx') \<and>
           capacity (data ctx') = capacity (data ctx) * 2 \<and> head (data ctx') = 0 \<and>
           count (data ctx') = count (data ctx) + 1 \<and>
           buffer_contents (data ctx') = buffer_contents (data ctx) @ [sqlite3_value_double v]"
  using step_effect_initialised[OF assms(1), where env=env and v=v] assms(2,3,4)
  by (cases "stats_step env (Some ctx) [v]") auto

lemma insert_run:
  assumes "alloc_ok env"
  shows "list_all numeric vs \<Longrightarrow> vs \<noteq> [] \<Longrightarrow> length vs \<le> 100 \<Longrightarrow>
     \<exists>ctx. run (map (Step env) vs) None = Some ctx \<and> buffer_wf (data ctx) \<and>
       capacity (data ctx) = 100 \<and> head (data ctx) = 0 \<and>
       count (data ctx) = int (length vs) \<and>
       buffer_contents (data ctx) = map sqlite3_value_double vs"
proof (induction vs rule: rev_induct)
  case Nil
  then show ?case by simp
next
  case (snoc v vs)
  have nv: "numeric v" using snoc.prems(1) by simp
  show ?case
  proof (cases "vs = []")
    case True
    then show ?thesis using first_step[OF assms nv] by auto
  next
    case False
    from snoc.IH False snoc.prems obtain ctx where
      c: "run (map (Step env) vs) None = Some ctx" "buffer_wf (data ctx)"
      "capacity (data ctx) = 100" "head (data ctx) = 0" "count (data ctx) = int (length vs)"
      "buffer_contents (data ctx) = map sqlite3_value_double vs"
      by auto
    have lt: "count (data ctx) < capacity (data ctx)" using c(3,5) snoc.prems(3) by simp
    from next_step[OF c(2) nv lt, of env] obtain ctx' where
      "stats_step env (Some ctx) [v] = (NoResult, Some ctx')" "buffer_wf (data ctx')"
      "capacity (data ctx') = capacity (data ctx)" "head (data ctx') = head (data ctx)"
      "count (data ctx') = count (data ctx) + 1"
      "buffer_contents (data ctx') = buffer_contents (data ctx) @ [sqlite3_value_double v]"
      by blast
    then show ?thesis using c by (simp add: run_append)
  qed
qed

lemma take_copy_loop:
  assumes "0 \<le> count d" "nat (count d) \<le> length new_values"
  shows "take (nat (count d)) (copy_loop d new_values 0) = buffer_contents d"
proof (rule nth_equalityI)
  show "length (take (nat (count d)) (copy_loop d new_values 0)) = length (buffer_contents d)"
    using assms by simp
  fix i assume "i < length (take (nat (count d)) (copy_loop d new_values 0))"
  then have i: "i < nat (count d)" "i < length new_values" "int i < count d"
    using assms by simp_all
  then show "take (nat (count d)) (copy_loop d new_values 0) ! i = buffer_contents d ! i"
    using nth_copy_loop[of 0 i new_values d] by (simp add: nth_buffer_contents)
qed

text \<open>
  C7. Growth, on a well-formed buffer that is full, when \<open>malloc\<close> succeeds: the new
  array has twice the capacity and holds the buffered values in its first \<open>count\<close>
  cells, in logical order; \<open>head\<close> is 0 and \<open>tail\<close> is \<open>count\<close>; every logical index
  reads the value it read before. A numeric step on the full buffer is this one growth
  followed by the write: the capacity doubles once and the value is appended. Inserting
  \<open>INITIAL_CAPACITY + 1\<close> numeric values into a fresh aggregate leaves the capacity at
  \<open>INITIAL_CAPACITY\<close> up to the last insert and at twice that after it, with the values
  buffered in insertion order.
\<close>

theorem growth_transparent:
  "(buffer_wf d \<and> count d = capacity d \<and> malloc_result env = Some g \<longrightarrow>
      (\<exists>d'. grow_stats_buffer env d = (SQLITE_OK, d') \<and>
         capacity d' = 2 * capacity d \<and> count d' = count d \<and> head d' = 0 \<and>
         tail d' = count d \<and> sum_f d' = sum_f d \<and> sum_sq d' = sum_sq d \<and>
         (\<exists>vs'. values_f d' = Some vs' \<and> int (length vs') = 2 * capacity d \<and>
                take (nat (count d)) vs' = buffer_contents d) \<and>
         (\<forall>i. 0 \<le> i \<and> i < count d \<longrightarrow> get_circular_value d' i = get_circular_value d i) \<and>
         (\<forall>(ctx::StatsWindowContext) v. data ctx = d \<and> numeric v \<longrightarrow>
            stats_step env (Some ctx) [v] =
              (NoResult, Some (ctx\<lparr>data := push_value d' (sqlite3_value_double v)\<rparr>)) \<and>
            capacity (push_value d' (sqlite3_value_double v)) = 2 * capacity d \<and>
            buffer_contents (push_value d' (sqlite3_value_double v)) =
              buffer_contents d @ [sqlite3_value_double v]))) \<and>
   (alloc_ok env \<and> list_all numeric vs \<and> int (length vs) = INITIAL_CAPACITY + 1 \<longrightarrow>
      capacity (agg_data (run (map (Step env) (butlast vs)) None)) = INITIAL_CAPACITY \<and>
      capacity (agg_data (run (map (Step env) vs) None)) = 2 * INITIAL_CAPACITY \<and>
      head (agg_data (run (map (Step env) vs) None)) = 0 \<and>
      tail (agg_data (run (map (Step env) vs) None)) = INITIAL_CAPACITY + 1 \<and>
      agg_contents (run (map (Step env) vs) None) = map sqlite3_value_double vs)"
proof (intro conjI impI)
  assume a: "buffer_wf d \<and> count d = capacity d \<and> malloc_result env = Some g"
  then have wf: "buffer_wf d" and full: "count d = capacity d"
    and m: "malloc_result env = Some g" by simp_all
  from wf obtain vs0 where c: "values_f d = Some vs0" "0 < capacity d" "0 \<le> count d"
    by (rule buffer_wfD)
  let ?new = "map g [0..<nat (capacity d * 2)]"
  define d' where "d' = snd (grow_stats_buffer env d)"
  have d'_eq: "d' = d\<lparr>values_f := Some (copy_loop d ?new 0), capacity := capacity d * 2,
      head := 0, tail := count d\<rparr>"
    unfolding d'_def grow_ok[OF m] by simp
  note gf = grow_fields[OF wf m, folded d'_def]
  have g1: "grow_stats_buffer env d = (SQLITE_OK, d')"
    unfolding d'_def grow_ok[OF m] by simp
  have g2: "\<exists>vs'. values_f d' = Some vs' \<and> int (length vs') = 2 * capacity d \<and>
                take (nat (count d)) vs' = buffer_contents d"
    using c full take_copy_loop[of d ?new] by (simp add: d'_eq)
  have g3: "\<forall>i. 0 \<le> i \<and> i < count d \<longrightarrow> get_circular_value d' i = get_circular_value d i"
  proof (intro allI impI)
    fix i assume i: "0 \<le> i \<and> i < count d"
    have "buffer_contents d' ! nat i = buffer_contents d ! nat i" by (simp only: gf(3))
    then show "get_circular_value d' i = get_circular_value d i"
      using i gf(4) by (simp add: nth_buffer_contents)
  qed
  have lt: "count d' < capacity d'" using gf(4,5) full c by simp
  have g4: "\<forall>(ctx::StatsWindowContext) v. data ctx = d \<and> numeric v \<longrightarrow>
            stats_step env (Some ctx) [v] =
              (NoResult, Some (ctx\<lparr>data := push_value d' (sqlite3_value_double v)\<rparr>)) \<and>
            capacity (push_value d' (sqlite3_value_double v)) = 2 * capacity d \<and>
            buffer_contents (push_value d' (sqlite3_value_double v)) =
              buffer_contents d @ [sqlite3_value_double v]"
  proof (intro allI impI)
    fix ctx :: StatsWindowContext and v assume h: "data ctx = d \<and> numeric v"
    have nn: "values_f (data ctx) \<noteq> None" using h c by simp
    have "stats_step env (Some ctx) [v] =
              (NoResult, Some (ctx\<lparr>data := push_value d' (sqlite3_value_double v)\<rparr>))"
      using step_numeric_eq[OF nn, of v env] h full m by (simp add: d'_def)
    then show "stats_step env (Some ctx) [v] =
              (NoResult, Some (ctx\<lparr>data := push_value d' (sqlite3_value_double v)\<rparr>)) \<and>
            capacity (push_value d' (sqlite3_value_double v)) = 2 * capacity d \<and>
            buffer_contents (push_value d' (sqlite3_value_double v)) =
              buffer_contents d @ [sqlite3_value_double v]"
      using push_value_fields[OF gf(2) lt, of "sqlite3_value_double v"] gf by simp
  qed
  have f: "capacity d' = 2 * capacity d" "count d' = count d" "head d' = 0"
    "tail d' = count d" "sum_f d' = sum_f d" "sum_sq d' = sum_sq d"
    using gf by simp_all
  show "\<exists>d'. grow_stats_buffer env d = (SQLITE_OK, d') \<and>
         capacity d' = 2 * capacity d \<and> count d' = count d \<and> head d' = 0 \<and>
         tail d' = count d \<and> sum_f d' = sum_f d \<and> sum_sq d' = sum_sq d \<and>
         (\<exists>vs'. values_f d' = Some vs' \<and> int (length vs') = 2 * capacity d \<and>
                take (nat (count d)) vs' = buffer_contents d) \<and>
         (\<forall>i. 0 \<le> i \<and> i < count d \<longrightarrow> get_circular_value d' i = get_circular_value d i) \<and>
         (\<forall>(ctx::StatsWindowContext) v. data ctx = d \<and> numeric v \<longrightarrow>
            stats_step env (Some ctx) [v] =
              (NoResult, Some (ctx\<lparr>data := push_value d' (sqlite3_value_double v)\<rparr>)) \<and>
            capacity (push_value d' (sqlite3_value_double v)) = 2 * capacity d \<and>
            buffer_contents (push_value d' (sqlite3_value_double v)) =
              buffer_contents d @ [sqlite3_value_double v])"
    by (intro exI[of _ d'] conjI; fact g1 f g2 g3 g4)
next
  assume a: "alloc_ok env \<and> list_all numeric vs \<and> int (length vs) = INITIAL_CAPACITY + 1"
  then have ok: "alloc_ok env" and len: "length vs = 101"
    by (simp_all add: INITIAL_CAPACITY_def)
  then obtain ws v where vs: "vs = ws @ [v]" by (cases vs rule: rev_cases) auto
  have ws: "list_all numeric ws" "ws \<noteq> []" "length ws \<le> 100" "length ws = 100" "numeric v"
    using a len by (auto simp: vs)
  from insert_run[OF ok ws(1-3)] obtain ctx where
    c: "run (map (Step env) ws) None = Some ctx" "buffer_wf (data ctx)"
      "capacity (data ctx) = 100" "head (data ctx) = 0" "count (data ctx) = int (length ws)"
      "buffer_contents (data ctx) = map sqlite3_value_double ws"
    by blast
  have full: "count (data ctx) = capacity (data ctx)" using c(3,5) ws(4) by simp
  have m: "malloc_result env \<noteq> None" using ok by (simp add: alloc_ok_def)
  from growing_step[OF c(2) ws(5) full m] obtain ctx' where
    c': "stats_step env (Some ctx) [v] = (NoResult, Some ctx')" "buffer_wf (data ctx')"
      "capacity (data ctx') = capacity (data ctx) * 2" "head (data ctx') = 0"
      "count (data ctx') = count (data ctx) + 1"
      "buffer_contents (data ctx') = buffer_contents (data ctx) @ [sqlite3_value_double v]"
    by blast
  have r: "run (map (Step env) vs) None = Some ctx'"
    using c(1) c'(1) by (simp add: vs run_append)
  have t: "tail (data ctx') = 101"
    using c'(2-5) c(3,5) ws(4) by (auto elim!: buffer_wfD)
  have i': "initialised (Some ctx')" using c'(2) agg_wf_Some by blast
  show "capacity (agg_data (run (map (Step env) (butlast vs)) None)) = INITIAL_CAPACITY"
    using c(1,3) by (simp add: vs INITIAL_CAPACITY_def)
  show "capacity (agg_data (run (map (Step env) vs) None)) = 2 * INITIAL_CAPACITY"
    using c'(3) c(3) by (simp add: r INITIAL_CAPACITY_def)
  show "head (agg_data (run (map (Step env) vs) None)) = 0"
    using c'(4) by (simp add: r)
  show "tail (agg_data (run (map (Step env) vs) None)) = INITIAL_CAPACITY + 1"
    using t by (simp add: r INITIAL_CAPACITY_def)
  show "agg_contents (run (map (Step env) vs) None) = map sqlite3_value_double vs"
    using i' c'(6) c(6) unfolding r agg_contents_def by (simp add: vs)
qed

lemma env_ok_alloc [simp]: "alloc_ok env_ok" "malloc_result env_ok = Some (\<lambda>_. Fin 0)"
  by (simp_all add: alloc_ok_def env_ok_def)

lemma small_full_wf: "buffer_wf small_full"
  by (simp add: buffer_wf_def small_full_def)

lemma small_full_contents: "buffer_contents small_full = [Fin 5, Fin 7]"
  by code_simp

lemma small_full_grow: "grow_stats_buffer env_ok small_full = (SQLITE_OK, small_grown)"
  by code_simp

theorem growth_transparent_witness:
  "buffer_wf small_full \<and> count small_full = capacity small_full \<and>
   malloc_result env_ok = Some (\<lambda>_. Fin 0) \<and>
   buffer_contents small_full = [Fin 5, Fin 7] \<and>
   grow_stats_buffer env_ok small_full = (SQLITE_OK, small_grown) \<and>
   (\<exists>d'. grow_stats_buffer env_ok small_full = (SQLITE_OK, d') \<and>
      capacity d' = 2 * capacity small_full \<and> head d' = 0 \<and> tail d' = count small_full \<and>
      (\<exists>vs'. values_f d' = Some vs' \<and> take (nat (count small_full)) vs' = [Fin 5, Fin 7])) \<and>
   alloc_ok env_ok \<and> list_all numeric overfull_values \<and>
   int (length overfull_values) = INITIAL_CAPACITY + 1 \<and>
   capacity (agg_data (run (map (Step env_ok) (butlast overfull_values)) None)) =
     INITIAL_CAPACITY \<and>
   capacity (agg_data (run (map (Step env_ok) overfull_values) None)) = 2 * INITIAL_CAPACITY \<and>
   agg_contents (run (map (Step env_ok) overfull_values) None) =
     map sqlite3_value_double overfull_values"
proof -
  have h1: "buffer_wf small_full \<and> count small_full = capacity small_full \<and>
     malloc_result env_ok = Some (\<lambda>_. Fin 0)"
    using small_full_wf by (simp add: small_full_def)
  have h2: "alloc_ok env_ok \<and> list_all numeric overfull_values \<and>
     int (length overfull_values) = INITIAL_CAPACITY + 1"
    by (simp add: overfull_values_def list_all_iff INITIAL_CAPACITY_def)
  note t = growth_transparent[of small_full env_ok "\<lambda>_. Fin 0" overfull_values]
  from t[THEN conjunct1] h1 obtain d' where
    d': "grow_stats_buffer env_ok small_full = (SQLITE_OK, d')"
      "capacity d' = 2 * capacity small_full" "head d' = 0" "tail d' = count small_full"
      "\<exists>vs'. values_f d' = Some vs' \<and> int (length vs') = 2 * capacity small_full \<and>
         take (nat (count small_full)) vs' = buffer_contents small_full"
    by blast
  have e: "\<exists>d'. grow_stats_buffer env_ok small_full = (SQLITE_OK, d') \<and>
      capacity d' = 2 * capacity small_full \<and> head d' = 0 \<and> tail d' = count small_full \<and>
      (\<exists>vs'. values_f d' = Some vs' \<and> take (nat (count small_full)) vs' = [Fin 5, Fin 7])"
    using d' unfolding small_full_contents by blast
  from t[THEN conjunct2] h2 have
    r: "capacity (agg_data (run (map (Step env_ok) (butlast overfull_values)) None)) =
          INITIAL_CAPACITY"
      "capacity (agg_data (run (map (Step env_ok) overfull_values) None)) = 2 * INITIAL_CAPACITY"
      "agg_contents (run (map (Step env_ok) overfull_values) None) =
         map sqlite3_value_double overfull_values"
    by blast+
  show ?thesis using h1 h2 e r small_full_contents small_full_grow by blast
qed

lemma full_agg_state:
  "initialised full_agg \<and> capacity (agg_data full_agg) = 100 \<and> count (agg_data full_agg) = 100"
proof -
  have "list_all numeric full_values" "full_values \<noteq> []" "length full_values \<le> 100"
    "length full_values = 100"
    by (simp_all add: full_values_def list_all_iff)
  from insert_run[OF env_ok_alloc(1) this(1-3)] this(4) obtain ctx where
    c: "full_agg = Some ctx" "buffer_wf (data ctx)" "capacity (data ctx) = 100"
    "count (data ctx) = 100"
    unfolding full_agg_def by auto
  show ?thesis unfolding c(1) using agg_wf_Some[OF c(2)] c(3,4) by simp
qed

text \<open>
  C8. When \<open>malloc\<close> fails, \<open>grow_stats_buffer\<close> returns \<open>SQLITE_NOMEM\<close> and leaves the
  state as it was, and a step with a numeric argument on a full buffer reports the
  out-of-memory error and leaves the whole context as it was: array, count, capacity,
  head, tail and both sums.
\<close>

theorem growth_failure_atomic:
  "malloc_result env = None \<longrightarrow>
     grow_stats_buffer env d = (SQLITE_NOMEM, d) \<and>
     (initialised agg \<and> capacity (agg_data agg) \<le> count (agg_data agg) \<and> numeric v \<longrightarrow>
        stats_step env agg [v] = (ResultErrorNomem, agg))"
proof (intro impI conjI)
  assume m: "malloc_result env = None"
  then show "grow_stats_buffer env d = (SQLITE_NOMEM, d)" by (rule grow_fail)
  assume a: "initialised agg \<and> capacity (agg_data agg) \<le> count (agg_data agg) \<and> numeric v"
  then obtain ctx where ctx: "agg = Some ctx" by (cases agg) auto
  have nn: "values_f (data ctx) \<noteq> None" using a by (simp add: ctx)
  show "stats_step env agg [v] = (ResultErrorNomem, agg)"
    using step_numeric_eq[OF nn, of v env] a m by (simp add: ctx)
qed

theorem growth_failure_atomic_witness:
  "malloc_result env_nomem = None \<and>
   grow_stats_buffer env_nomem small_full = (SQLITE_NOMEM, small_full) \<and>
   initialised full_agg \<and> capacity (agg_data full_agg) \<le> count (agg_data full_agg) \<and>
   numeric (SqlInteger 101) \<and>
   stats_step env_nomem full_agg [SqlInteger 101] = (ResultErrorNomem, full_agg)"
proof -
  have m: "malloc_result env_nomem = None" by (simp add: env_nomem_def)
  have h: "initialised full_agg \<and> capacity (agg_data full_agg) \<le> count (agg_data full_agg) \<and>
    numeric (SqlInteger 101)"
    using full_agg_state by simp
  show ?thesis
    using m h growth_failure_atomic[of env_nomem small_full full_agg "SqlInteger 101"]
    by blast
qed


section \<open>The step contract\<close>

text \<open>
  C9. A step with one argument, on a well-formed context, in which no allocation fails
  (or none is needed: the context is initialised and the argument is not numeric). A
  null argument reports nothing and inserts nothing: the buffered values, the count and
  both sums are as before, and an initialised context is left as it was. An argument
  that is neither null nor an integer nor a float reports the error
  \<open>Invalid data type, expected numeric value.\<close> A numeric argument reports nothing and
  its value is appended to the buffered values.
\<close>

theorem step_contract:
  "agg_wf agg \<and> (alloc_ok env \<or> initialised agg \<and> \<not> numeric v) \<longrightarrow>
     (v = SqlNull \<longrightarrow>
        fst (stats_step env agg [v]) = NoResult \<and>
        same_stats agg (snd (stats_step env agg [v])) \<and>
        (initialised agg \<longrightarrow> snd (stats_step env agg [v]) = agg)) \<and>
     (v \<noteq> SqlNull \<and> \<not> numeric v \<longrightarrow>
        fst (stats_step env agg [v]) =
          ResultError ''Invalid data type, expected numeric value.'') \<and>
     (numeric v \<longrightarrow>
        fst (stats_step env agg [v]) = NoResult \<and>
        agg_contents (snd (stats_step env agg [v])) =
          agg_contents agg @ [sqlite3_value_double v] \<and>
        count (agg_data (snd (stats_step env agg [v]))) = count (agg_data agg) + 1)"
proof (intro impI)
  assume a: "agg_wf agg \<and> (alloc_ok env \<or> initialised agg \<and> \<not> numeric v)"
  then have wf: "agg_wf agg" by simp
  let ?res = "stats_step env agg [v]"
  note e = step_effect[OF wf, where env=env and v=v]
  have nomem: "fst ?res \<noteq> ResultErrorNomem"
  proof (cases "alloc_ok env")
    case True
    then show ?thesis using e by (auto simp: invalid_msg_def)
  next
    case False
    then have i: "initialised agg" "\<not> numeric v" using a by simp_all
    then obtain ctx where ctx: "agg = Some ctx" by (cases agg) auto
    have bw: "buffer_wf (data ctx)" using wf i(1) by (simp add: agg_wf_def ctx)
    show ?thesis using step_effect_initialised[OF bw, where env=env and v=v] i(2)
      by (auto simp: ctx)
  qed
  have un: "snd ?res = agg" if "initialised agg" "v = SqlNull"
    using step_unchanged_initialised[OF wf that(1), of v env] that(2) by simp
  show "(v = SqlNull \<longrightarrow>
        fst ?res = NoResult \<and> same_stats agg (snd ?res) \<and>
        (initialised agg \<longrightarrow> snd ?res = agg)) \<and>
     (v \<noteq> SqlNull \<and> \<not> numeric v \<longrightarrow>
        fst ?res = ResultError ''Invalid data type, expected numeric value.'') \<and>
     (numeric v \<longrightarrow>
        fst ?res = NoResult \<and>
        agg_contents (snd ?res) = agg_contents agg @ [sqlite3_value_double v] \<and>
        count (agg_data (snd ?res)) = count (agg_data agg) + 1)"
    using e nomem un by (auto simp: invalid_msg_def)
qed

lemma demo_calls_wf: "agg_wf (run demo_calls None)"
  by (rule run_wf) simp

lemma step_demo_number:
  "agg_contents (snd (stats_step env_ok (run demo_calls None) [SqlInteger 9])) =
     [Fin (1/2), Fin 5, Fin 9]"
  by code_simp

theorem step_contract_witness:
  "agg_wf (run demo_calls None) \<and> alloc_ok env_ok \<and>
   fst (stats_step env_ok (run demo_calls None) [SqlNull]) = NoResult \<and>
   snd (stats_step env_ok (run demo_calls None) [SqlNull]) = run demo_calls None \<and>
   SqlText ''abc'' \<noteq> SqlNull \<and> \<not> numeric (SqlText ''abc'') \<and>
   fst (stats_step env_ok (run demo_calls None) [SqlText ''abc'']) =
     ResultError ''Invalid data type, expected numeric value.'' \<and>
   numeric (SqlInteger 9) \<and>
   fst (stats_step env_ok (run demo_calls None) [SqlInteger 9]) = NoResult \<and>
   agg_contents (snd (stats_step env_ok (run demo_calls None) [SqlInteger 9])) =
     agg_contents (run demo_calls None) @ [sqlite3_value_double (SqlInteger 9)] \<and>
   agg_contents (snd (stats_step env_ok (run demo_calls None) [SqlInteger 9])) =
     [Fin (1/2), Fin 5, Fin 9]"
proof -
  have h: "agg_wf (run demo_calls None) \<and>
    (alloc_ok env_ok \<or> initialised (run demo_calls None) \<and> \<not> numeric v)" for v
    using demo_calls_wf by simp
  have i: "initialised (run demo_calls None)" by (rule demo_calls_initialised)
  note t = step_contract[of "run demo_calls None" env_ok, rule_format, OF h]
  have a: "fst (stats_step env_ok (run demo_calls None) [SqlNull]) = NoResult"
    "snd (stats_step env_ok (run demo_calls None) [SqlNull]) = run demo_calls None"
    using t[of SqlNull] i by simp_all
  have b: "fst (stats_step env_ok (run demo_calls None) [SqlText ''abc'']) =
     ResultError ''Invalid data type, expected numeric value.''"
    using t[of "SqlText ''abc''"] by simp
  have c: "fst (stats_step env_ok (run demo_calls None) [SqlInteger 9]) = NoResult"
    "agg_contents (snd (stats_step env_ok (run demo_calls None) [SqlInteger 9])) =
     agg_contents (run demo_calls None) @ [sqlite3_value_double (SqlInteger 9)]"
    using t[of "SqlInteger 9"] by simp_all
  show ?thesis using demo_calls_wf a b c step_demo_number by simp
qed

text \<open>
  C10. A step whose argument is neither null nor numeric. On an initialised context it
  returns the invalid-type error and the context it was given, unchanged in every field.
  On a context that is not initialised yet, the error is reported only after the lazy
  initialisation has succeeded: the context afterwards is the freshly initialised one,
  with nothing buffered, and the count and both sums still zero.
\<close>

theorem invalid_input_atomic:
  "v \<noteq> SqlNull \<and> \<not> numeric v \<longrightarrow>
     (initialised agg \<longrightarrow>
        stats_step env agg [v] =
          (ResultError ''Invalid data type, expected numeric value.'', agg)) \<and>
     (agg_wf agg \<and>
      fst (stats_step env agg [v]) = ResultError ''Invalid data type, expected numeric value.'' \<longrightarrow>
        same_stats agg (snd (stats_step env agg [v]))) \<and>
     (\<not> initialised agg \<and>
      fst (stats_step env agg [v]) = ResultError ''Invalid data type, expected numeric value.'' \<longrightarrow>
        init_window_stats_data env (agg_data agg) =
          (SQLITE_OK, snd (init_window_stats_data env (agg_data agg))) \<and>
        snd (stats_step env agg [v]) =
          Some \<lparr>data = snd (init_window_stats_data env (agg_data agg))\<rparr>)"
proof (intro impI conjI)
  assume a: "v \<noteq> SqlNull \<and> \<not> numeric v"
  then have nn: "v \<noteq> SqlNull" and nv: "\<not> numeric v" by simp_all
  {
    assume i: "initialised agg"
    then obtain ctx where ctx: "agg = Some ctx" by (cases agg) auto
    have "values_f (data ctx) \<noteq> None" using i by (simp add: ctx)
    from step_nonnumeric_initialised[OF this nn nv, of env]
    show "stats_step env agg [v] =
          (ResultError ''Invalid data type, expected numeric value.'', agg)"
      by (simp add: ctx invalid_msg_def)
  }
  {
    assume b: "agg_wf agg \<and>
      fst (stats_step env agg [v]) = ResultError ''Invalid data type, expected numeric value.''"
    then show "same_stats agg (snd (stats_step env agg [v]))"
      using step_effect[of agg env v] by auto
  }
  assume c: "\<not> initialised agg \<and>
      fst (stats_step env agg [v]) = ResultError ''Invalid data type, expected numeric value.''"
  then have u: "\<not> initialised agg" by simp
  have ca: "agg = None \<longrightarrow> ctx_alloc_ok env"
  proof (intro impI, rule ccontr)
    assume n: "agg = None" and "\<not> ctx_alloc_ok env"
    from step_ctx_alloc_fail[OF this(2), of v] c show False by (simp add: n)
  qed
  obtain g where g: "malloc_result env = Some g"
    using c step_init_fail[OF ca u, of v] by (cases "malloc_result env") auto
  let ?d1 = "snd (init_window_stats_data env (agg_data agg))"
  show d1: "init_window_stats_data env (agg_data agg) = (SQLITE_OK, ?d1)"
    unfolding init_ok[OF g] by simp
  have "values_f ?d1 \<noteq> None" unfolding init_ok[OF g] by simp
  then have "values_f (data \<lparr>data = ?d1\<rparr>) \<noteq> None" by simp
  from step_nonnumeric_initialised[OF this nn nv, of env]
  show "snd (stats_step env agg [v]) = Some \<lparr>data = ?d1\<rparr>"
    unfolding step_init_ok[OF ca u d1, of v] by simp
qed

lemma step_none_text:
  "fst (stats_step env_ok None [SqlText ''abc'']) =
     ResultError ''Invalid data type, expected numeric value.''"
  by code_simp

theorem invalid_input_atomic_witness:
  "SqlText ''abc'' \<noteq> SqlNull \<and> \<not> numeric (SqlText ''abc'') \<and>
   initialised (run demo_calls None) \<and>
   stats_step env_nomem (run demo_calls None) [SqlText ''abc''] =
     (ResultError ''Invalid data type, expected numeric value.'', run demo_calls None) \<and>
   agg_wf None \<and> \<not> initialised None \<and>
   fst (stats_step env_ok None [SqlText ''abc'']) =
     ResultError ''Invalid data type, expected numeric value.'' \<and>
   same_stats None (snd (stats_step env_ok None [SqlText ''abc''])) \<and>
   snd (stats_step env_ok None [SqlText ''abc'']) =
     Some \<lparr>data = snd (init_window_stats_data env_ok (agg_data None))\<rparr>"
proof -
  have h: "SqlText ''abc'' \<noteq> SqlNull \<and> \<not> numeric (SqlText ''abc'')" by simp
  note t1 = invalid_input_atomic[of "SqlText ''abc''" "run demo_calls None" env_nomem,
      rule_format, OF h]
  note t2 = invalid_input_atomic[of "SqlText ''abc''" None env_ok, rule_format, OF h]
  have a: "stats_step env_nomem (run demo_calls None) [SqlText ''abc''] =
     (ResultError ''Invalid data type, expected numeric value.'', run demo_calls None)"
    using t1 demo_calls_initialised by blast
  have b: "same_stats None (snd (stats_step env_ok None [SqlText ''abc'']))"
    "snd (stats_step env_ok None [SqlText ''abc'']) =
     Some \<lparr>data = snd (init_window_stats_data env_ok (agg_data None))\<rparr>"
    using t2 step_none_text agg_wf_None agg_simps(3) by blast+
  show ?thesis using h a b step_none_text demo_calls_initialised agg_wf_None agg_simps(3)
    by blast
qed


section \<open>The range of the integer fields\<close>

lemma step_count_bound:
  assumes "agg_wf agg"
  shows "count (agg_data (snd (stats_step env agg [v]))) \<le> count (agg_data agg) + 1"
  using step_effect[OF assms, where env=env and v=v] by (auto simp: same_stats_def)

lemma step_capacity:
  assumes "agg_wf agg"
  shows "capacity (agg_data (snd (stats_step env agg [v]))) = capacity (agg_data agg)
       \<or> capacity (agg_data (snd (stats_step env agg [v]))) = 0
       \<or> capacity (agg_data (snd (stats_step env agg [v]))) = 100
       \<or> (capacity (agg_data agg) \<le> count (agg_data agg) \<and>
           capacity (agg_data (snd (stats_step env agg [v]))) = capacity (agg_data agg) * 2)"
proof (cases "initialised agg")
  case True
  then obtain ctx where ctx: "agg = Some ctx" by (cases agg) auto
  have bw: "buffer_wf (data ctx)" using assms True by (simp add: agg_wf_def ctx)
  show ?thesis using step_effect_initialised[OF bw, where env=env and v=v]
    by (auto simp: ctx split: if_splits)
next
  case False
  show ?thesis
  proof (cases "agg = None \<and> \<not> ctx_alloc_ok env")
    case True
    then show ?thesis using step_ctx_alloc_fail[of env v] by (simp add: zeroed_data_def)
  next
    case ca: False
    then have ca': "agg = None \<longrightarrow> ctx_alloc_ok env" by blast
    show ?thesis
    proof (cases "malloc_result env")
      case None
      then show ?thesis using step_init_fail[OF ca' False None, of v]
        by (simp add: INITIAL_CAPACITY_def)
    next
      case (Some g)
      obtain d1 where d1: "init_window_stats_data env (agg_data agg) = (SQLITE_OK, d1)"
        using init_ok[OF Some] by simp
      note i = init_wf[OF d1]
      define ctx1 where "ctx1 = \<lparr>data = d1\<rparr>"
      have eq: "stats_step env agg [v] = stats_step env (Some ctx1) [v]"
        using step_init_ok[OF ca' False d1, of v] by (simp add: ctx1_def)
      have bw: "buffer_wf (data ctx1)" using i(1) by (simp add: ctx1_def)
      have f1: "count (data ctx1) = 0" "capacity (data ctx1) = 100"
        using i by (simp_all add: ctx1_def INITIAL_CAPACITY_def)
      show ?thesis using step_effect_initialised[OF bw, where env=env and v=v] f1
        unfolding eq by auto
    qed
  qed
qed

lemma inverse_bounds:
  assumes "agg_wf agg"
  shows "capacity (agg_data (snd (stats_inverse agg [v]))) = capacity (agg_data agg)"
    "count (agg_data (snd (stats_inverse agg [v]))) \<le> count (agg_data agg)"
proof -
  show "capacity (agg_data (snd (stats_inverse agg [v]))) = capacity (agg_data agg)"
    by (cases agg)
       (auto simp: stats_inverse_def sqlite3_aggregate_context_def Let_def
          remove_from_circular_buffer_def split: prod.splits)
  show "count (agg_data (snd (stats_inverse agg [v]))) \<le> count (agg_data agg)"
    using inverse_effect[OF assms, where v=v] by (auto split: if_splits)
qed

lemma run_bounds:
  "agg_wf agg \<Longrightarrow> count (agg_data agg) \<le> n \<Longrightarrow> 0 \<le> n \<Longrightarrow>
   0 \<le> capacity (agg_data agg) \<Longrightarrow> capacity (agg_data agg) \<le> max 100 (2 * n) \<Longrightarrow>
   count (agg_data (run cs agg)) \<le> n + int (length cs) \<and>
   0 \<le> capacity (agg_data (run cs agg)) \<and>
   capacity (agg_data (run cs agg)) \<le> max 100 (2 * (n + int (length cs)))"
proof (induction cs agg arbitrary: n rule: run.induct)
  case (1 agg)
  then show ?case by simp
next
  case (2 env v cs agg)
  let ?a = "snd (stats_step env agg [v])"
  have wf': "agg_wf ?a" using step_effect[OF "2.prems"(1), where env=env and v=v] by simp
  have c: "count (agg_data ?a) \<le> n + 1"
    using step_count_bound[OF "2.prems"(1), of env v] "2.prems"(2) by simp
  have k: "0 \<le> capacity (agg_data ?a)" "capacity (agg_data ?a) \<le> max 100 (2 * (n + 1))"
    using step_capacity[OF "2.prems"(1), of env v] "2.prems"(2,3,4,5) by auto
  from "2.IH"[OF wf' c _ k] "2.prems"(3) show ?case by (simp add: algebra_simps)
next
  case (3 v cs agg)
  let ?a = "snd (stats_inverse agg [v])"
  have wf': "agg_wf ?a" using inverse_effect[OF "3.prems"(1), where v=v] by simp
  have c: "count (agg_data ?a) \<le> n" "0 \<le> capacity (agg_data ?a)"
    "capacity (agg_data ?a) \<le> max 100 (2 * n)"
    using inverse_bounds[OF "3.prems"(1), of v] "3.prems"(2,4,5) by simp_all
  from "3.IH"[OF wf' c(1) "3.prems"(3) c(2,3)] show ?case by auto
qed

text \<open>
  The integer fields stay within the range of a C \<open>int\<close>: after fewer than \<open>2^30\<close>
  calls on a fresh aggregate every field is between 0 and \<open>INT_MAX\<close>, and so is the
  doubled capacity whenever the next step would grow the buffer.
\<close>

lemma run_int_range:
  assumes "length cs < 2^30"
  shows "0 \<le> count (agg_data (run cs None)) \<and> count (agg_data (run cs None)) \<le> INT_MAX \<and>
         0 \<le> capacity (agg_data (run cs None)) \<and> capacity (agg_data (run cs None)) \<le> INT_MAX \<and>
         (initialised (run cs None) \<longrightarrow>
            0 \<le> head (agg_data (run cs None)) \<and>
            head (agg_data (run cs None)) < capacity (agg_data (run cs None)) \<and>
            0 \<le> tail (agg_data (run cs None)) \<and>
            tail (agg_data (run cs None)) < capacity (agg_data (run cs None))) \<and>
         (capacity (agg_data (run cs None)) \<le> count (agg_data (run cs None)) \<longrightarrow>
            capacity (agg_data (run cs None)) * CAPACITY_GROWTH_FACTOR \<le> INT_MAX)"
proof -
  let ?d = "agg_data (run cs None)"
  have wf: "agg_wf (run cs None)" by (rule run_wf) simp
  have b: "count ?d \<le> int (length cs)" "0 \<le> capacity ?d"
    "capacity ?d \<le> max 100 (2 * int (length cs))"
    using run_bounds[of None 0 cs] by (simp_all add: zeroed_data_def)
  have l: "int (length cs) < 2^30" using assms by (simp flip: of_nat_less_iff)
  have i: "0 \<le> count ?d \<and> 0 \<le> capacity ?d \<and>
    (initialised (run cs None) \<longrightarrow> 0 \<le> head ?d \<and> head ?d < capacity ?d \<and>
       0 \<le> tail ?d \<and> tail ?d < capacity ?d)"
  proof (cases "initialised (run cs None)")
    case True
    then have "buffer_wf ?d" using wf by (simp add: agg_wf_def)
    then show ?thesis by (auto elim!: buffer_wfD)
  next
    case False
    then show ?thesis using wf b(2) by (auto simp: agg_wf_def)
  qed
  show ?thesis using b l i by (auto simp: INT_MAX_def CAPACITY_GROWTH_FACTOR_def)
qed

end
